theory Spec2Isabelle
  imports Main "HOL-Library.Word" "HOL-Library.Sublist"
begin

section \<open>Gas benchmarks: data model\<close>

text \<open>
  The two scripts \<^verbatim>\<open>gas_bench1.py\<close> and \<^verbatim>\<open>gas_bench2.py\<close> drive a local chain through
  the web3 library. Everything the scripts call but do not define (the JSON-RPC client,
  the account library, the contract interface) is collected in the record \<open>web3\<close>
  below and taken as a parameter; every such call may raise. Python integers are
  \<open>int\<close>, byte strings are lists of \<open>8 word\<close>, exceptions are values of \<open>error\<close>.
\<close>

datatype error =
    ZeroDivisionError
  | KeyError
  | IndexError
  | ValueError
  | RuntimeError string
  | LibraryError string

type_synonym bytes = "8 word list"
type_synonym address = string
type_synonym txhash = bytes
type_synonym raw_transaction = bytes

record account =
  address :: address
  private_key :: bytes

datatype abi_value = Bytes32 bytes | Uint int

record contract =
  contract_address :: address

text \<open>\<open>contract.functions.<name>\<close>, and the same applied to its arguments.\<close>

record contract_function =
  fn_contract :: contract
  fn_name :: string

record contract_call =
  call_fn :: contract_function
  call_args :: "abi_value list"

text \<open>The dictionary handed to \<^verbatim>\<open>build_transaction\<close>, and the dictionary it returns.\<close>

record tx_params =
  tx_from :: address
  tx_nonce :: int
  tx_gasPrice :: int

record built_tx =
  tx_request :: tx_params
  tx_to :: address
  tx_data :: bytes
  tx_gas :: int

record receipt =
  gasUsed :: int
  status :: int
  contractAddress :: address

text \<open>
  The library. The JSON-RPC calls read and change the state \<open>'w\<close> of the outside world
  (the chain); the other calls are local. \<open>Inl\<close> is a raised exception.
\<close>

record 'w web3 =
  get_transaction_count :: "'w \<Rightarrow> address \<Rightarrow> (error + int) \<times> 'w"
  build_transaction :: "'w \<Rightarrow> contract_call \<Rightarrow> tx_params \<Rightarrow> (error + built_tx) \<times> 'w"
  send_raw_transaction :: "'w \<Rightarrow> raw_transaction \<Rightarrow> (error + txhash) \<times> 'w"
  wait_for_transaction_receipt :: "'w \<Rightarrow> txhash \<Rightarrow> (error + receipt) \<times> 'w"
  sign_transaction :: "account \<Rightarrow> built_tx \<Rightarrow> error + raw_transaction"
  get_function :: "contract \<Rightarrow> string \<Rightarrow> error + contract_function"
  apply_function :: "contract_function \<Rightarrow> abi_value list \<Rightarrow> error + contract_call"
  to_wei :: "int \<Rightarrow> string \<Rightarrow> error + int"

text \<open>
  What a run does to the outside world is the sequence of library calls it makes. The
  transcript records each answered call (signing and JSON-RPC traffic) with its answer,
  oldest first.
\<close>

datatype event =
    GetTransactionCount address int
  | BuildTransaction contract_call tx_params built_tx
  | SignTransaction account built_tx raw_transaction
  | SendRawTransaction raw_transaction txhash
  | WaitForTransactionReceipt txhash receipt

record 'w state =
  world :: 'w
  transcript :: "event list"

definition rpc_get_transaction_count ::
  "'w web3 \<Rightarrow> address \<Rightarrow> 'w state \<Rightarrow> (error + int) \<times> 'w state" where
  "rpc_get_transaction_count lib a s =
     (case get_transaction_count lib (world s) a of
        (Inl e, w) \<Rightarrow> (Inl e, s\<lparr>world := w\<rparr>)
      | (Inr n, w) \<Rightarrow>
          (Inr n, s\<lparr>world := w, transcript := transcript s @ [GetTransactionCount a n]\<rparr>))"

definition rpc_build_transaction ::
  "'w web3 \<Rightarrow> contract_call \<Rightarrow> tx_params \<Rightarrow> 'w state \<Rightarrow> (error + built_tx) \<times> 'w state" where
  "rpc_build_transaction lib c p s =
     (case build_transaction lib (world s) c p of
        (Inl e, w) \<Rightarrow> (Inl e, s\<lparr>world := w\<rparr>)
      | (Inr tx, w) \<Rightarrow>
          (Inr tx, s\<lparr>world := w, transcript := transcript s @ [BuildTransaction c p tx]\<rparr>))"

definition acct_sign_transaction ::
  "'w web3 \<Rightarrow> account \<Rightarrow> built_tx \<Rightarrow> 'w state \<Rightarrow> (error + raw_transaction) \<times> 'w state" where
  "acct_sign_transaction lib acct tx s =
     (case sign_transaction lib acct tx of
        Inl e \<Rightarrow> (Inl e, s)
      | Inr raw \<Rightarrow> (Inr raw, s\<lparr>transcript := transcript s @ [SignTransaction acct tx raw]\<rparr>))"

definition rpc_send_raw_transaction ::
  "'w web3 \<Rightarrow> raw_transaction \<Rightarrow> 'w state \<Rightarrow> (error + txhash) \<times> 'w state" where
  "rpc_send_raw_transaction lib raw s =
     (case send_raw_transaction lib (world s) raw of
        (Inl e, w) \<Rightarrow> (Inl e, s\<lparr>world := w\<rparr>)
      | (Inr h, w) \<Rightarrow>
          (Inr h, s\<lparr>world := w, transcript := transcript s @ [SendRawTransaction raw h]\<rparr>))"

definition rpc_wait_for_transaction_receipt ::
  "'w web3 \<Rightarrow> txhash \<Rightarrow> 'w state \<Rightarrow> (error + receipt) \<times> 'w state" where
  "rpc_wait_for_transaction_receipt lib h s =
     (case wait_for_transaction_receipt lib (world s) h of
        (Inl e, w) \<Rightarrow> (Inl e, s\<lparr>world := w\<rparr>)
      | (Inr r, w) \<Rightarrow>
          (Inr r, s\<lparr>world := w, transcript := transcript s @ [WaitForTransactionReceipt h r]\<rparr>))"

subsection \<open>Rendering\<close>

text \<open>\<^verbatim>\<open>str(n)\<close> of a Python integer, as the f-strings use it.\<close>

definition digit_char :: "nat \<Rightarrow> char" where
  "digit_char d = ''0123456789abcdef'' ! d"

fun str_nat :: "nat \<Rightarrow> string" where
  "str_nat n = (if n < 10 then [digit_char n] else str_nat (n div 10) @ [digit_char (n mod 10)])"

definition str_int :: "int \<Rightarrow> string" where
  "str_int i = (if i < 0 then CHR ''-'' # str_nat (nat (- i)) else str_nat (nat i))"

text \<open>
  \<^verbatim>\<open>h.hex()\<close> of a byte string: two lower-case hexadecimal digits for each byte.
\<close>

definition hex_byte :: "8 word \<Rightarrow> string" where
  "hex_byte b = [digit_char (unat b div 16), digit_char (unat b mod 16)]"

definition hex :: "bytes \<Rightarrow> string" where
  "hex bs = concat (map hex_byte bs)"

section \<open>Configuration\<close>

record config =
  BLOCK_TIME :: int
  NUM_ACCOUNTS :: int
  N :: int
  GAS_PRICE_GWEI :: int

section \<open>The Pipeliner (gas\_bench1, call\_deposit\_many\_multiacct)\<close>

text \<open>
  The dictionary comprehension on the first line: one \<^verbatim>\<open>get_transaction_count\<close> for
  each account of the list, stored under the account's address.
\<close>

fun query_base_nonces ::
  "'w web3 \<Rightarrow> account list \<Rightarrow> (address \<rightharpoonup> int) \<Rightarrow> 'w state
     \<Rightarrow> (error + (address \<rightharpoonup> int)) \<times> 'w state" where
  "query_base_nonces lib [] m s = (Inr m, s)"
| "query_base_nonces lib (acct # accts) m s =
     (case rpc_get_transaction_count lib (address acct) s of
        (Inl e, s') \<Rightarrow> (Inl e, s')
      | (Inr n, s') \<Rightarrow> query_base_nonces lib accts (m(address acct \<mapsto> n)) s')"

text \<open>
  One iteration of the loop "1. Sign and send". The local variables that outlive the
  iteration are \<open>base_nonces\<close> and \<open>tx_hashes\<close>; they are returned as they stand when the
  iteration ends or raises.
\<close>

type_synonym send_locals = "(address \<rightharpoonup> int) \<times> txhash list"

definition sign_and_send_step ::
  "'w web3 \<Rightarrow> config \<Rightarrow> contract \<Rightarrow> string \<Rightarrow> (int \<Rightarrow> abi_value list) \<Rightarrow> account list
     \<Rightarrow> int \<Rightarrow> send_locals \<Rightarrow> 'w state \<Rightarrow> (error + unit) \<times> send_locals \<times> 'w state" where
  "sign_and_send_step lib cfg c name args_factory accounts i loc s =
     (if accounts = [] then (Inl ZeroDivisionError, loc, s) else
      let acct = accounts ! nat (i mod int (length accounts));
          args = args_factory i
      in
      (case get_function lib c name of Inl e \<Rightarrow> (Inl e, loc, s) | Inr f \<Rightarrow>
      (case apply_function lib f args of Inl e \<Rightarrow> (Inl e, loc, s) | Inr fn \<Rightarrow>
      (case fst loc (address acct) of None \<Rightarrow> (Inl KeyError, loc, s) | Some nonce \<Rightarrow>
      (case to_wei lib (GAS_PRICE_GWEI cfg) ''gwei'' of Inl e \<Rightarrow> (Inl e, loc, s) | Inr price \<Rightarrow>
      (case rpc_build_transaction lib fn
              \<lparr>tx_from = address acct, tx_nonce = nonce, tx_gasPrice = price\<rparr> s of
         (Inl e, s1) \<Rightarrow> (Inl e, loc, s1) | (Inr tx, s1) \<Rightarrow>
      (let loc1 = ((fst loc)(address acct \<mapsto> nonce + 1), snd loc) in
      (case acct_sign_transaction lib acct tx s1 of
         (Inl e, s2) \<Rightarrow> (Inl e, loc1, s2) | (Inr raw, s2) \<Rightarrow>
      (case rpc_send_raw_transaction lib raw s2 of
         (Inl e, s3) \<Rightarrow> (Inl e, loc1, s3) | (Inr txh, s3) \<Rightarrow>
      (Inr (), (fst loc1, snd loc1 @ [txh]), s3))))))))))"

fun sign_and_send ::
  "'w web3 \<Rightarrow> config \<Rightarrow> contract \<Rightarrow> string \<Rightarrow> (int \<Rightarrow> abi_value list) \<Rightarrow> account list
     \<Rightarrow> int list \<Rightarrow> send_locals \<Rightarrow> 'w state \<Rightarrow> (error + unit) \<times> send_locals \<times> 'w state" where
  "sign_and_send lib cfg c name args_factory accounts [] loc s = (Inr (), loc, s)"
| "sign_and_send lib cfg c name args_factory accounts (i # is) loc s =
     (case sign_and_send_step lib cfg c name args_factory accounts i loc s of
        (Inl e, loc', s') \<Rightarrow> (Inl e, loc', s')
      | (Inr u, loc', s') \<Rightarrow> sign_and_send lib cfg c name args_factory accounts is loc' s')"

text \<open>
  The loop "2. Collect receipts", over the transaction hashes in the order they were
  appended. The two progress lines it prints are not part of the model: they go to
  standard output and change no variable.
\<close>

fun collect_receipts ::
  "'w web3 \<Rightarrow> txhash list \<Rightarrow> int list \<Rightarrow> 'w state \<Rightarrow> (error + unit) \<times> int list \<times> 'w state" where
  "collect_receipts lib [] gas_used s = (Inr (), gas_used, s)"
| "collect_receipts lib (txh # txhs) gas_used s =
     (case rpc_wait_for_transaction_receipt lib txh s of
        (Inl e, s') \<Rightarrow> (Inl e, gas_used, s')
      | (Inr r, s') \<Rightarrow> collect_receipts lib txhs (gas_used @ [gasUsed r]) s')"

definition call_deposit_many_multiacct ::
  "'w web3 \<Rightarrow> config \<Rightarrow> contract \<Rightarrow> string \<Rightarrow> (int \<Rightarrow> abi_value list) \<Rightarrow> account list
     \<Rightarrow> int \<Rightarrow> 'w state \<Rightarrow> (error + int list \<times> string list) \<times> 'w state" where
  "call_deposit_many_multiacct lib cfg c name args_factory accounts n_calls s =
     (case query_base_nonces lib accounts Map.empty s of
        (Inl e, s0) \<Rightarrow> (Inl e, s0) | (Inr base_nonces, s0) \<Rightarrow>
     (case sign_and_send lib cfg c name args_factory accounts [0..n_calls - 1]
             (base_nonces, []) s0 of
        (Inl e, loc, s1) \<Rightarrow> (Inl e, s1) | (Inr u, loc, s1) \<Rightarrow>
     (case collect_receipts lib (snd loc) [] s1 of
        (Inl e, gas_used, s2) \<Rightarrow> (Inl e, s2) | (Inr u, gas_used, s2) \<Rightarrow>
     (Inr (gas_used, map hex (snd loc)), s2))))"

definition the_acct :: "account list \<Rightarrow> int \<Rightarrow> account" where
  "the_acct accounts i = accounts ! nat (i mod int (length accounts))"

definition prepared ::
  "'w web3 \<Rightarrow> config \<Rightarrow> contract \<Rightarrow> string \<Rightarrow> (int \<Rightarrow> abi_value list) \<Rightarrow> account list
     \<Rightarrow> int \<Rightarrow> (address \<rightharpoonup> int) \<Rightarrow> contract_call \<Rightarrow> tx_params \<Rightarrow> bool" where
  "prepared lib cfg c name af accounts i bn fn p \<longleftrightarrow>
     accounts \<noteq> [] \<and>
     (\<exists>f. get_function lib c name = Inr f \<and> apply_function lib f (af i) = Inr fn) \<and>
     (\<exists>nonce price. bn (address (the_acct accounts i)) = Some nonce \<and>
        to_wei lib (GAS_PRICE_GWEI cfg) ''gwei'' = Inr price \<and>
        p = \<lparr>tx_from = address (the_acct accounts i), tx_nonce = nonce, tx_gasPrice = price\<rparr>)"

definition requested ::
  "'w web3 \<Rightarrow> config \<Rightarrow> contract \<Rightarrow> string \<Rightarrow> (int \<Rightarrow> abi_value list)
     \<Rightarrow> int \<Rightarrow> contract_call \<times> tx_params \<times> built_tx \<Rightarrow> bool" where
  "requested lib cfg c name af i b \<longleftrightarrow>
     (\<exists>f. get_function lib c name = Inr f \<and> apply_function lib f (af i) = Inr (fst b)) \<and>
     to_wei lib (GAS_PRICE_GWEI cfg) ''gwei'' = Inr (tx_gasPrice (fst (snd b)))"

definition answered :: "'w web3 \<Rightarrow> txhash \<times> receipt \<Rightarrow> bool" where
  "answered lib q \<longleftrightarrow> (\<exists>w w'. wait_for_transaction_receipt lib w (fst q) = (Inr (snd q), w'))"

definition bump :: "(address \<rightharpoonup> int) \<Rightarrow> address \<Rightarrow> (address \<rightharpoonup> int)" where
  "bump bn a = (case bn a of None \<Rightarrow> bn | Some n \<Rightarrow> bn(a \<mapsto> n + 1))"

definition build_of :: "event \<Rightarrow> (contract_call \<times> tx_params \<times> built_tx) list" where
  "build_of e = (case e of BuildTransaction c p t \<Rightarrow> [(c, p, t)] | _ \<Rightarrow> [])"

definition sign_of :: "event \<Rightarrow> (account \<times> built_tx \<times> raw_transaction) list" where
  "sign_of e = (case e of SignTransaction a t r \<Rightarrow> [(a, t, r)] | _ \<Rightarrow> [])"

definition send_of :: "event \<Rightarrow> (raw_transaction \<times> txhash) list" where
  "send_of e = (case e of SendRawTransaction r h \<Rightarrow> [(r, h)] | _ \<Rightarrow> [])"

definition wait_of :: "event \<Rightarrow> (txhash \<times> receipt) list" where
  "wait_of e = (case e of WaitForTransactionReceipt h r \<Rightarrow> [(h, r)] | _ \<Rightarrow> [])"

definition count_of :: "event \<Rightarrow> (address \<times> int) list" where
  "count_of e = (case e of GetTransactionCount a n \<Rightarrow> [(a, n)] | _ \<Rightarrow> [])"

definition builds :: "event list \<Rightarrow> (contract_call \<times> tx_params \<times> built_tx) list" where
  "builds evs = concat (map build_of evs)"

definition signs :: "event list \<Rightarrow> (account \<times> built_tx \<times> raw_transaction) list" where
  "signs evs = concat (map sign_of evs)"

definition sends :: "event list \<Rightarrow> (raw_transaction \<times> txhash) list" where
  "sends evs = concat (map send_of evs)"

definition waits :: "event list \<Rightarrow> (txhash \<times> receipt) list" where
  "waits evs = concat (map wait_of evs)"

definition counts :: "event list \<Rightarrow> (address \<times> int) list" where
  "counts evs = concat (map count_of evs)"

definition nonces_for :: "address \<Rightarrow> event list \<Rightarrow> int list" where
  "nonces_for a evs = map tx_nonce (filter (\<lambda>p. tx_from p = a) (map (fst \<circ> snd) (builds evs)))"

definition gapless_from :: "int \<Rightarrow> int list \<Rightarrow> bool" where
  "gapless_from c ns \<longleftrightarrow> ns = map (\<lambda>j. c + int j) [0..<length ns]"

definition emitted :: "'w state \<Rightarrow> 'w state \<Rightarrow> event list" where
  "emitted s s' = drop (length (transcript s)) (transcript s')"

definition send_trace ::
  "(int \<Rightarrow> contract_call \<times> tx_params \<times> built_tx \<Rightarrow> bool) \<Rightarrow> account list \<Rightarrow> int list
     \<Rightarrow> txhash list \<Rightarrow> txhash list \<Rightarrow> error + unit \<Rightarrow> event list \<Rightarrow> bool" where
  "send_trace R accounts is hs hs' r evs \<longleftrightarrow>
     hs' = hs @ map snd (sends evs) \<and>
     list_all2 R (take (length (builds evs)) is) (builds evs) \<and>
     map fst (signs evs) = map (the_acct accounts) (take (length (signs evs)) is) \<and>
     map (fst \<circ> snd) (signs evs) = take (length (signs evs)) (map (snd \<circ> snd) (builds evs)) \<and>
     map fst (sends evs) = take (length (sends evs)) (map (snd \<circ> snd) (signs evs)) \<and>
     map (tx_from \<circ> fst \<circ> snd) (builds evs)
       = map (address \<circ> the_acct accounts) (take (length (builds evs)) is) \<and>
     length (builds evs) \<le> length is \<and> waits evs = [] \<and> counts evs = [] \<and>
     (r = Inr () \<longrightarrow> length (sends evs) = length is \<and> length (signs evs) = length is
        \<and> length (builds evs) = length is)"

definition answers :: "'w web3 \<Rightarrow> bool" where
  "answers lib \<longleftrightarrow>
     (\<forall>w a. \<exists>n w'. get_transaction_count lib w a = (Inr n, w')) \<and>
     (\<forall>w c p. \<exists>t w'. build_transaction lib w c p = (Inr t, w')) \<and>
     (\<forall>w raw. \<exists>h w'. send_raw_transaction lib w raw = (Inr h, w')) \<and>
     (\<forall>w h. \<exists>rc w'. wait_for_transaction_receipt lib w h = (Inr rc, w')) \<and>
     (\<forall>acct t. \<exists>raw. sign_transaction lib acct t = Inr raw) \<and>
     (\<forall>c name. \<exists>f. get_function lib c name = Inr f) \<and>
     (\<forall>f args. \<exists>fn. apply_function lib f args = Inr fn) \<and>
     (\<forall>n u. \<exists>v. to_wei lib n u = Inr v)"

definition queried_nonces :: "event list \<Rightarrow> (address \<rightharpoonup> int)" where
  "queried_nonces evs = fold (\<lambda>(a, n) m. m(a \<mapsto> n)) (counts evs) Map.empty"

definition count_events :: "(address \<times> int) list \<Rightarrow> event list" where
  "count_events ps = map (\<lambda>(a, n). GetTransactionCount a n) ps"

definition wait_events :: "(txhash \<times> receipt) list \<Rightarrow> event list" where
  "wait_events qs = map (\<lambda>(h, rc). WaitForTransactionReceipt h rc) qs"

definition pipeline_trace ::
  "(int \<Rightarrow> contract_call \<times> tx_params \<times> built_tx \<Rightarrow> bool) \<Rightarrow> (txhash \<times> receipt \<Rightarrow> bool)
     \<Rightarrow> account list \<Rightarrow> int \<Rightarrow> error + int list \<times> string list \<Rightarrow> event list \<Rightarrow> bool" where
  "pipeline_trace R A accounts n r evs \<longleftrightarrow>
     (\<exists>ps e1 qs hs r1.
        evs = count_events ps @ e1 @ wait_events qs \<and>
        map fst ps = take (length ps) (map address accounts) \<and>
        send_trace R accounts [0..n - 1] [] hs r1 e1 \<and> list_all A qs \<and>
        (\<forall>a c0. queried_nonces (count_events ps) a = Some c0 \<longrightarrow> gapless_from c0 (nonces_for a e1)) \<and>
        (\<forall>a. queried_nonces (count_events ps) a = None \<longrightarrow> nonces_for a e1 = []) \<and>
        map fst qs = take (length qs) hs \<and>
        (\<forall>gas hexs. r = Inr (gas, hexs) \<longrightarrow>
           r1 = Inr () \<and> length ps = length accounts \<and> length qs = length hs \<and>
           gas = map (gasUsed \<circ> snd) qs \<and> hexs = map hex hs))"

definition stub_chain :: "nat web3" where
  "stub_chain = \<lparr>
     get_transaction_count = (\<lambda>w a. (Inr 0, w)),
     build_transaction = (\<lambda>w c p. (Inr \<lparr>tx_request = p,
        tx_to = contract_address (fn_contract (call_fn c)), tx_data = [], tx_gas = 100000\<rparr>, w)),
     send_raw_transaction = (\<lambda>w raw. (Inr [of_nat w], Suc w)),
     wait_for_transaction_receipt =
       (\<lambda>w h. (Inr \<lparr>gasUsed = 21000, status = 1, contractAddress = []\<rparr>, w)),
     sign_transaction = (\<lambda>acct tx. Inr (private_key acct)),
     get_function = (\<lambda>c n. Inr \<lparr>fn_contract = c, fn_name = n\<rparr>),
     apply_function = (\<lambda>f args. Inr \<lparr>call_fn = f, call_args = args\<rparr>),
     to_wei = (\<lambda>n u. Inr (n * 1000000000))\<rparr>"

definition two_accounts :: "account list" where
  "two_accounts = [\<lparr>address = ''0xA0'', private_key = [0]\<rparr>,
                   \<lparr>address = ''0xA1'', private_key = [1]\<rparr>]"

definition default_config :: config where
  "default_config = \<lparr>BLOCK_TIME = 0, NUM_ACCOUNTS = 20, N = 25000, GAS_PRICE_GWEI = 1\<rparr>"

definition deposit_contract :: contract where
  "deposit_contract = \<lparr>contract_address = ''0xC0''\<rparr>"

definition leaf_args :: "int \<Rightarrow> abi_value list" where
  "leaf_args i = [Uint i]"

definition fresh :: "nat state" where
  "fresh = \<lparr>world = 0, transcript = []\<rparr>"

definition with_status :: "(receipt \<Rightarrow> int) \<Rightarrow> 'w web3 \<Rightarrow> 'w web3" where
  "with_status g lib = lib\<lparr>wait_for_transaction_receipt :=
     (\<lambda>w h. case wait_for_transaction_receipt lib w h of
        (Inl e, w') \<Rightarrow> (Inl e, w')
      | (Inr rc, w') \<Rightarrow> (Inr (rc\<lparr>status := g rc\<rparr>), w'))\<rparr>"

definition observe :: "(error + 'a) \<times> 'w state \<Rightarrow> (error + 'a) \<times> 'w" where
  "observe x = (fst x, world (snd x))"

definition observe_collect ::
  "(error + unit) \<times> int list \<times> 'w state \<Rightarrow> (error + unit) \<times> int list \<times> 'w" where
  "observe_collect x = (fst x, fst (snd x), world (snd (snd x)))"





section \<open>The Precount Stepper (gas\_bench2, call\_deposit\_after\_precounts)\<close>

text \<open>
  Both halves of the loop body build, sign and send one transaction and wait for its
  receipt with the same lines of code (\<^verbatim>\<open>build_transaction\<close> with the sender, the nonce
  read from the chain and the gas price; \<^verbatim>\<open>sign_transaction\<close>; \<^verbatim>\<open>send_raw_transaction\<close>;
  \<^verbatim>\<open>wait_for_transaction_receipt\<close>). \<open>send_and_wait\<close> is that sequence, in the order Python
  evaluates it.
\<close>

definition send_and_wait ::
  "'w web3 \<Rightarrow> config \<Rightarrow> account \<Rightarrow> contract_call \<Rightarrow> 'w state
     \<Rightarrow> (error + txhash \<times> receipt) \<times> 'w state" where
  "send_and_wait lib cfg acct fn s =
     (case rpc_get_transaction_count lib (address acct) s of
        (Inl e, s0) \<Rightarrow> (Inl e, s0) | (Inr nonce, s0) \<Rightarrow>
     (case to_wei lib (GAS_PRICE_GWEI cfg) ''gwei'' of Inl e \<Rightarrow> (Inl e, s0) | Inr price \<Rightarrow>
     (case rpc_build_transaction lib fn
             \<lparr>tx_from = address acct, tx_nonce = nonce, tx_gasPrice = price\<rparr> s0 of
        (Inl e, s1) \<Rightarrow> (Inl e, s1) | (Inr tx, s1) \<Rightarrow>
     (case acct_sign_transaction lib acct tx s1 of
        (Inl e, s2) \<Rightarrow> (Inl e, s2) | (Inr raw, s2) \<Rightarrow>
     (case rpc_send_raw_transaction lib raw s2 of
        (Inl e, s3) \<Rightarrow> (Inl e, s3) | (Inr txh, s3) \<Rightarrow>
     (case rpc_wait_for_transaction_receipt lib txh s3 of
        (Inl e, s4) \<Rightarrow> (Inl e, s4) | (Inr rc, s4) \<Rightarrow>
     (Inr (txh, rc), s4)))))))"

definition set_failed_message :: "int \<Rightarrow> int \<Rightarrow> string" where
  "set_failed_message k new_count =
     ''setDepositCount failed for k='' @ str_int k @ '', new_count='' @ str_int new_count @ ''.''"

definition deposit_failed_message :: "int \<Rightarrow> int \<Rightarrow> string" where
  "deposit_failed_message k new_count =
     ''deposit failed for k='' @ str_int k @ '', new_count='' @ str_int new_count
       @ ''. Receipt status=0''"

text \<open>
  One iteration of the loop over \<open>k\<close>. The local variables that outlive it are \<open>gas_list\<close>
  and \<open>tx_hashes\<close>, returned as they stand when the iteration ends or raises.
\<close>

type_synonym precount_locals = "int list \<times> string list"

definition precount_step ::
  "'w web3 \<Rightarrow> config \<Rightarrow> contract \<Rightarrow> string \<Rightarrow> (int \<Rightarrow> abi_value list) \<Rightarrow> account
     \<Rightarrow> contract_function \<Rightarrow> int \<Rightarrow> precount_locals \<Rightarrow> 'w state
     \<Rightarrow> (error + unit) \<times> precount_locals \<times> 'w state" where
  "precount_step lib cfg c name args_factory acct set_fn k loc s =
     (let new_count = 2 ^ nat k - 1 in
      (case apply_function lib set_fn [Uint new_count] of
         Inl e \<Rightarrow> (Inl e, loc, s) | Inr set_call \<Rightarrow>
      (case send_and_wait lib cfg acct set_call s of
         (Inl e, s1) \<Rightarrow> (Inl e, loc, s1) | (Inr (tx_hash, receipt), s1) \<Rightarrow>
      if status receipt \<noteq> 1
      then (Inl (RuntimeError (set_failed_message k new_count)), loc, s1)
      else
      (let args = args_factory k in
      (case get_function lib c name of Inl e \<Rightarrow> (Inl e, loc, s1) | Inr f \<Rightarrow>
      (case apply_function lib f args of Inl e \<Rightarrow> (Inl e, loc, s1) | Inr fn \<Rightarrow>
      (case send_and_wait lib cfg acct fn s1 of
         (Inl e, s2) \<Rightarrow> (Inl e, loc, s2) | (Inr (tx_hash2, receipt2), s2) \<Rightarrow>
      if status receipt2 \<noteq> 1
      then (Inl (RuntimeError (deposit_failed_message k new_count)), loc, s2)
      else (Inr (), (fst loc @ [gasUsed receipt2], snd loc @ [hex tx_hash2]), s2))))))))"

fun precount_loop ::
  "'w web3 \<Rightarrow> config \<Rightarrow> contract \<Rightarrow> string \<Rightarrow> (int \<Rightarrow> abi_value list) \<Rightarrow> account
     \<Rightarrow> contract_function \<Rightarrow> int list \<Rightarrow> precount_locals \<Rightarrow> 'w state
     \<Rightarrow> (error + unit) \<times> precount_locals \<times> 'w state" where
  "precount_loop lib cfg c name args_factory acct set_fn [] loc s = (Inr (), loc, s)"
| "precount_loop lib cfg c name args_factory acct set_fn (k # ks) loc s =
     (case precount_step lib cfg c name args_factory acct set_fn k loc s of
        (Inl e, loc', s') \<Rightarrow> (Inl e, loc', s')
      | (Inr u, loc', s') \<Rightarrow> precount_loop lib cfg c name args_factory acct set_fn ks loc' s')"

text \<open>
  The function: \<^verbatim>\<open>contract.functions.setDepositCount\<close> is looked up once, before the loop
  over \<^verbatim>\<open>range(1, max_power + 1)\<close>. The line it prints for each \<open>k\<close> is not modelled.
\<close>

definition call_deposit_after_precounts ::
  "'w web3 \<Rightarrow> config \<Rightarrow> contract \<Rightarrow> string \<Rightarrow> (int \<Rightarrow> abi_value list) \<Rightarrow> account
     \<Rightarrow> int \<Rightarrow> 'w state \<Rightarrow> (error + int list \<times> string list) \<times> 'w state" where
  "call_deposit_after_precounts lib cfg c name args_factory acct max_power s =
     (case get_function lib c ''setDepositCount'' of Inl e \<Rightarrow> (Inl e, s) | Inr set_fn \<Rightarrow>
     (case precount_loop lib cfg c name args_factory acct set_fn [1..max_power] ([], []) s of
        (Inl e, loc, s') \<Rightarrow> (Inl e, s') | (Inr u, loc, s') \<Rightarrow> (Inr loc, s')))"

text \<open>
  Some call of the library raised \<open>e\<close>.
\<close>

definition library_raised :: "'w web3 \<Rightarrow> error \<Rightarrow> bool" where
  "library_raised lib e \<longleftrightarrow>
     (\<exists>w a w'. get_transaction_count lib w a = (Inl e, w')) \<or>
     (\<exists>w fn p w'. build_transaction lib w fn p = (Inl e, w')) \<or>
     (\<exists>w raw w'. send_raw_transaction lib w raw = (Inl e, w')) \<or>
     (\<exists>w h w'. wait_for_transaction_receipt lib w h = (Inl e, w')) \<or>
     (\<exists>acct tx. sign_transaction lib acct tx = Inl e) \<or>
     (\<exists>c name. get_function lib c name = Inl e) \<or>
     (\<exists>f args. apply_function lib f args = Inl e) \<or>
     (\<exists>n unit. to_wei lib n unit = Inl e)"

text \<open>
  What one \<open>send_and_wait\<close> that returns has exchanged with the library, and the five
  events it leaves in the transcript.
\<close>

record exchange =
  x_count :: int
  x_call :: contract_call
  x_params :: tx_params
  x_tx :: built_tx
  x_raw :: raw_transaction
  x_hash :: txhash
  x_receipt :: receipt

definition exchange_events :: "account \<Rightarrow> exchange \<Rightarrow> event list" where
  "exchange_events acct x =
     [GetTransactionCount (address acct) (x_count x),
      BuildTransaction (x_call x) (x_params x) (x_tx x),
      SignTransaction acct (x_tx x) (x_raw x),
      SendRawTransaction (x_raw x) (x_hash x),
      WaitForTransactionReceipt (x_hash x) (x_receipt x)]"

definition exchanged :: "'w web3 \<Rightarrow> config \<Rightarrow> account \<Rightarrow> contract_call \<Rightarrow> exchange \<Rightarrow> bool" where
  "exchanged lib cfg acct fn x \<longleftrightarrow>
     x_call x = fn \<and> tx_from (x_params x) = address acct \<and> tx_nonce (x_params x) = x_count x \<and>
     to_wei lib (GAS_PRICE_GWEI cfg) ''gwei'' = Inr (tx_gasPrice (x_params x)) \<and>
     sign_transaction lib acct (x_tx x) = Inr (x_raw x) \<and>
     answered lib (x_hash x, x_receipt x)"

text \<open>
  What one iteration of the loop that completes has exchanged with the library: the
  call of \<^verbatim>\<open>setDepositCount\<close> with \<open>2 ^ k - 1\<close> and the measured call, both with a receipt
  of status 1. The row appended for it holds the \<open>gasUsed\<close> of the second receipt and the
  hexadecimal form of the second hash.
\<close>

type_synonym checkpoint = "exchange \<times> exchange"

definition checkpoint ::
  "'w web3 \<Rightarrow> config \<Rightarrow> contract \<Rightarrow> string \<Rightarrow> (int \<Rightarrow> abi_value list) \<Rightarrow> account
     \<Rightarrow> contract_function \<Rightarrow> int \<Rightarrow> checkpoint \<Rightarrow> bool" where
  "checkpoint lib cfg c name af acct set_fn k cp \<longleftrightarrow>
     apply_function lib set_fn [Uint (2 ^ nat k - 1)] = Inr (x_call (fst cp)) \<and>
     exchanged lib cfg acct (x_call (fst cp)) (fst cp) \<and> status (x_receipt (fst cp)) = 1 \<and>
     (\<exists>f. get_function lib c name = Inr f \<and> apply_function lib f (af k) = Inr (x_call (snd cp))) \<and>
     exchanged lib cfg acct (x_call (snd cp)) (snd cp) \<and> status (x_receipt (snd cp)) = 1"

definition checkpoint_events :: "account \<Rightarrow> checkpoint \<Rightarrow> event list" where
  "checkpoint_events acct cp = exchange_events acct (fst cp) @ exchange_events acct (snd cp)"

definition row_gas :: "checkpoint \<Rightarrow> int" where
  "row_gas cp = gasUsed (x_receipt (snd cp))"

definition row_txhash :: "checkpoint \<Rightarrow> string" where
  "row_txhash cp = hex (x_hash (snd cp))"

text \<open>
  The ways an iteration for \<open>k\<close> raises \<open>e\<close> after the events \<open>pre\<close>: a library call
  raised, and every receipt so far had status 1; or the receipt of the
  \<^verbatim>\<open>setDepositCount\<close> transaction, the last event, has another status; or the receipt of
  the measured transaction, the last event, has another status.
\<close>

definition set_receipt_failed :: "account \<Rightarrow> int \<Rightarrow> error \<Rightarrow> event list \<Rightarrow> bool" where
  "set_receipt_failed acct k e pre \<longleftrightarrow>
     (\<exists>x1. pre = exchange_events acct x1 \<and> status (x_receipt x1) \<noteq> 1 \<and>
        e = RuntimeError (set_failed_message k (2 ^ nat k - 1)))"

definition deposit_receipt_failed :: "account \<Rightarrow> int \<Rightarrow> error \<Rightarrow> event list \<Rightarrow> bool" where
  "deposit_receipt_failed acct k e pre \<longleftrightarrow>
     (\<exists>x1 x2. pre = exchange_events acct x1 @ exchange_events acct x2 \<and>
        status (x_receipt x1) = 1 \<and> status (x_receipt x2) \<noteq> 1 \<and>
        e = RuntimeError (deposit_failed_message k (2 ^ nat k - 1)))"

definition aborted :: "'w web3 \<Rightarrow> account \<Rightarrow> int \<Rightarrow> error \<Rightarrow> event list \<Rightarrow> bool" where
  "aborted lib acct k e pre \<longleftrightarrow>
     (library_raised lib e \<and> list_all (\<lambda>q. status (snd q) = 1) (waits pre)) \<or>
     set_receipt_failed acct k e pre \<or> deposit_receipt_failed acct k e pre"

text \<open>
  The trace of the loop over \<open>ks\<close>: the checkpoints that completed, in the order of \<open>ks\<close>,
  each with its ten events and its row; then either nothing more (the loop is over) or
  the events of the iteration that raised.
\<close>

definition stepper_trace ::
  "'w web3 \<Rightarrow> config \<Rightarrow> contract \<Rightarrow> string \<Rightarrow> (int \<Rightarrow> abi_value list) \<Rightarrow> account
     \<Rightarrow> contract_function \<Rightarrow> int list \<Rightarrow> error + unit \<Rightarrow> precount_locals \<Rightarrow> event list
     \<Rightarrow> bool" where
  "stepper_trace lib cfg c name af acct set_fn ks r rows evs \<longleftrightarrow>
     (\<exists>cps pre. evs = concat (map (checkpoint_events acct) cps) @ pre \<and>
        list_all2 (checkpoint lib cfg c name af acct set_fn) (take (length cps) ks) cps \<and>
        rows = (map row_gas cps, map row_txhash cps) \<and>
        ((r = Inr () \<and> length cps = length ks \<and> pre = []) \<or>
         (\<exists>e. r = Inl e \<and> length cps < length ks \<and> aborted lib acct (ks ! length cps) e pre)))"

text \<open>
  The rows \<^verbatim>\<open>main\<close> of gas\_bench2 builds from the two lists:
  \<^verbatim>\<open>[(i, gas_list[i], tx_hashes[i]) for i in range(len(gas_list))]\<close>.
\<close>

definition result_rows :: "int list \<Rightarrow> string list \<Rightarrow> error + (int \<times> int \<times> string) list" where
  "result_rows gas_list tx_hashes =
     (if length tx_hashes < length gas_list then Inl IndexError
      else Inr (map (\<lambda>i. (int i, gas_list ! i, tx_hashes ! i)) [0..<length gas_list]))"

definition anvil_account :: account where
  "anvil_account = \<lparr>address = ''0xA0'', private_key = [0]\<rparr>"

definition reverting_chain :: "nat web3" where
  "reverting_chain = with_status (\<lambda>rc. 0) stub_chain"

text \<open>A chain on which the transaction with hash \<open>[3]\<close>, and no other, reverts.\<close>

definition flaky_chain :: "nat web3" where
  "flaky_chain = stub_chain\<lparr>wait_for_transaction_receipt :=
     (\<lambda>w h. (Inr \<lparr>gasUsed = 21000, status = (if h = [3] then 0 else 1), contractAddress = []\<rparr>, w))\<rparr>"

section \<open>The CSV report (save\_csv and the rows main stores)\<close>

definition CONTRACT_NAMES :: "string list" where
  "CONTRACT_NAMES = [''DepositContract'', ''DepositContractWithProofs'']"

type_synonym row = "int \<times> int \<times> string"

text \<open>A Python dictionary, in insertion order; \<open>dict_set d k v\<close> is \<^verbatim>\<open>d[k] = v\<close>.\<close>

fun dict_set :: "('k \<times> 'v) list \<Rightarrow> 'k \<Rightarrow> 'v \<Rightarrow> ('k \<times> 'v) list" where
  "dict_set [] k v = [(k, v)]"
| "dict_set (kv # d) k v = (if fst kv = k then (k, v) # d else kv # dict_set d k v)"

text \<open>
  What the loop "5)" of \<^verbatim>\<open>main\<close> stores, given for each deployed contract its name and the
  two lists its benchmark run returned: \<^verbatim>\<open>all_results[name] = rows\<close>.
\<close>

fun store_results ::
  "(string \<times> int list \<times> string list) list \<Rightarrow> (string \<times> row list) list
     \<Rightarrow> error + (string \<times> row list) list" where
  "store_results [] all_results = Inr all_results"
| "store_results (item # items) all_results =
     (case result_rows (fst (snd item)) (snd (snd item)) of
        Inl e \<Rightarrow> Inl e
      | Inr rows \<Rightarrow> store_results items (dict_set all_results (fst item) rows))"

definition newline :: char where
  "newline = CHR 0x0A"

definition csv_header :: string where
  "csv_header = ''contract,i,gas,txhash'' @ [newline]"

text \<open>The f-string \<^verbatim>\<open>f"{name},{i},{gas},{txh}\n"\<close>.\<close>

definition csv_row :: "string \<Rightarrow> row \<Rightarrow> string" where
  "csv_row name r =
     name @ '','' @ str_int (fst r) @ '','' @ str_int (fst (snd r)) @ '','' @ snd (snd r) @ [newline]"

text \<open>\<open>save_csv\<close>: the strings given to \<^verbatim>\<open>f.write\<close>, in the order they are written.\<close>

definition save_csv :: "(string \<times> row list) list \<Rightarrow> string list" where
  "save_csv all_results =
     csv_header # concat (map (\<lambda>(name, rows). map (csv_row name) rows) all_results)"

text \<open>
  The comma-separated fields of a text, as \<^verbatim>\<open>str.split(",")\<close> gives them, and the fields of
  a written line, which are those of the line without its final newline.
\<close>

fun split_commas :: "string \<Rightarrow> string list" where
  "split_commas [] = [[]]"
| "split_commas (c # cs) =
     (if c = CHR '','' then [] # split_commas cs
      else (case split_commas cs of [] \<Rightarrow> [[c]] | f # fs \<Rightarrow> (c # f) # fs))"

definition csv_fields :: "string \<Rightarrow> string list" where
  "csv_fields l = split_commas (butlast l)"

text \<open>The characters of \<open>digit_char\<close>.\<close>

definition hex_digits :: "char set" where
  "hex_digits = set ''0123456789abcdef''"

text \<open>A pair of lists that one of the two benchmark functions returned.\<close>

definition benchmark_output :: "'w web3 \<Rightarrow> config \<Rightarrow> int list \<times> string list \<Rightarrow> bool" where
  "benchmark_output lib cfg out \<longleftrightarrow>
     (\<exists>c name af accounts n s s'.
        call_deposit_many_multiacct lib cfg c name af accounts n s = (Inr out, s')) \<or>
     (\<exists>c name af acct K s s'.
        call_deposit_after_precounts lib cfg c name af acct K s = (Inr out, s'))"

text \<open>The fields the rows of one contract are expected to hold.\<close>

definition expected_fields :: "string \<times> int list \<times> string list \<Rightarrow> string list list" where
  "expected_fields item =
     map (\<lambda>i. [fst item, str_int (int i), str_int (fst (snd item) ! i), snd (snd item) ! i])
       [0..<length (fst (snd item))]"

section \<open>Properties\<close>

lemma of_simps [simp]:
  "build_of (BuildTransaction c p t) = [(c, p, t)]"
  "build_of (GetTransactionCount a n) = []"
  "build_of (SignTransaction ac t r) = []"
  "build_of (SendRawTransaction r h) = []"
  "build_of (WaitForTransactionReceipt h rc) = []"
  "sign_of (BuildTransaction c p t) = []"
  "sign_of (GetTransactionCount a n) = []"
  "sign_of (SignTransaction ac t r) = [(ac, t, r)]"
  "sign_of (SendRawTransaction r h) = []"
  "sign_of (WaitForTransactionReceipt h rc) = []"
  "send_of (BuildTransaction c p t) = []"
  "send_of (GetTransactionCount a n) = []"
  "send_of (SignTransaction ac t r) = []"
  "send_of (SendRawTransaction r h) = [(r, h)]"
  "send_of (WaitForTransactionReceipt h rc) = []"
  "wait_of (BuildTransaction c p t) = []"
  "wait_of (GetTransactionCount a n) = []"
  "wait_of (SignTransaction ac t r) = []"
  "wait_of (SendRawTransaction r h) = []"
  "wait_of (WaitForTransactionReceipt h rc) = [(h, rc)]"
  "count_of (BuildTransaction c p t) = []"
  "count_of (GetTransactionCount a n) = [(a, n)]"
  "count_of (SignTransaction ac t r) = []"
  "count_of (SendRawTransaction r h) = []"
  "count_of (WaitForTransactionReceipt h rc) = []"
  by (simp_all add: build_of_def sign_of_def send_of_def wait_of_def count_of_def)

lemma extract_simps [simp]:
  "builds [] = []" "builds (e # es) = build_of e @ builds es"
  "builds (xs @ ys) = builds xs @ builds ys"
  "signs [] = []" "signs (e # es) = sign_of e @ signs es"
  "signs (xs @ ys) = signs xs @ signs ys"
  "sends [] = []" "sends (e # es) = send_of e @ sends es"
  "sends (xs @ ys) = sends xs @ sends ys"
  "waits [] = []" "waits (e # es) = wait_of e @ waits es"
  "waits (xs @ ys) = waits xs @ waits ys"
  "counts [] = []" "counts (e # es) = count_of e @ counts es"
  "counts (xs @ ys) = counts xs @ counts ys"
  by (simp_all add: builds_def signs_def sends_def waits_def counts_def)

lemma nonces_for_simps [simp]:
  "nonces_for a [] = []"
  "nonces_for a (xs @ ys) = nonces_for a xs @ nonces_for a ys"
  "nonces_for a (BuildTransaction c p t # es)
     = (if tx_from p = a then [tx_nonce p] else []) @ nonces_for a es"
  "nonces_for a (GetTransactionCount b n # es) = nonces_for a es"
  "nonces_for a (SignTransaction ac t r # es) = nonces_for a es"
  "nonces_for a (SendRawTransaction r h # es) = nonces_for a es"
  "nonces_for a (WaitForTransactionReceipt h rc # es) = nonces_for a es"
  by (simp_all add: nonces_for_def)

lemma gapless_from_Nil [simp]: "gapless_from c []"
  by (simp add: gapless_from_def)

lemma gapless_from_Cons: "gapless_from c (n # ns) \<longleftrightarrow> n = c \<and> gapless_from (c + 1) ns"
proof -
  have "[0..<Suc (length ns)] = 0 # map Suc [0..<length ns]"
    by (simp add: upt_conv_Cons map_Suc_upt del: upt_Suc)
  then have "map (\<lambda>j. c + int j) [0..<Suc (length ns)]
          = c # map (\<lambda>j. c + 1 + int j) [0..<length ns]"
    by (simp add: o_def add.assoc del: upt_Suc)
  then show ?thesis unfolding gapless_from_def by (simp del: upt_Suc)
qed

lemma emitted_append: "transcript s' = transcript s @ evs \<Longrightarrow> emitted s s' = evs"
  by (simp add: emitted_def)

lemma prepared_from:
  "prepared lib cfg c name af accounts i bn fn p \<Longrightarrow> tx_from p = address (the_acct accounts i)"
  by (auto simp: prepared_def)

lemma prepared_nonce:
  "prepared lib cfg c name af accounts i bn fn p \<Longrightarrow> bn (tx_from p) = Some (tx_nonce p)"
  by (auto simp: prepared_def)

lemma prepared_requested:
  "prepared lib cfg c name af accounts i bn fn p \<Longrightarrow> requested lib cfg c name af i (fn, p, tx)"
  by (auto simp: prepared_def requested_def)

lemma sign_and_send_step_cases:
  assumes "sign_and_send_step lib cfg c name af accounts i loc s = (r, loc', s')"
  obtains
    (early) e where "r = Inl e" "loc' = loc" "transcript s' = transcript s"
  | (built) e fn p tx where "r = Inl e" "prepared lib cfg c name af accounts i (fst loc) fn p"
      "loc' = (bump (fst loc) (address (the_acct accounts i)), snd loc)"
      "transcript s' = transcript s @ [BuildTransaction fn p tx]"
  | (signed) e fn p tx raw where "r = Inl e" "prepared lib cfg c name af accounts i (fst loc) fn p"
      "loc' = (bump (fst loc) (address (the_acct accounts i)), snd loc)"
      "sign_transaction lib (the_acct accounts i) tx = Inr raw"
      "transcript s' = transcript s @
         [BuildTransaction fn p tx, SignTransaction (the_acct accounts i) tx raw]"
  | (sent) fn p tx raw h where "r = Inr ()" "prepared lib cfg c name af accounts i (fst loc) fn p"
      "loc' = (bump (fst loc) (address (the_acct accounts i)), snd loc @ [h])"
      "sign_transaction lib (the_acct accounts i) tx = Inr raw"
      "transcript s' = transcript s @
         [BuildTransaction fn p tx, SignTransaction (the_acct accounts i) tx raw,
          SendRawTransaction raw h]"
  using assms
  unfolding sign_and_send_step_def rpc_build_transaction_def acct_sign_transaction_def
    rpc_send_raw_transaction_def prepared_def bump_def the_acct_def Let_def
  by (auto split: if_splits sum.splits option.splits prod.splits)

lemma sign_and_send_Cons_cases:
  assumes "sign_and_send lib cfg c name af accounts (i # is) loc s = (r, loc', s')"
  obtains
    (stop) e where "sign_and_send_step lib cfg c name af accounts i loc s = (Inl e, loc', s')"
      "r = Inl e"
  | (continue) loc1 s1 where
      "sign_and_send_step lib cfg c name af accounts i loc s = (Inr (), loc1, s1)"
      "sign_and_send lib cfg c name af accounts is loc1 s1 = (r, loc', s')"
  using assms by (auto split: sum.splits prod.splits)

lemma sign_and_send_grows:
  "sign_and_send lib cfg c name af accounts is loc s = (r, loc', s')
     \<Longrightarrow> \<exists>evs. transcript s' = transcript s @ evs"
proof (induction "is" arbitrary: loc s)
  case Nil
  then show ?case by simp
next
  case (Cons i "is")
  from Cons.prems show ?case
  proof (cases rule: sign_and_send_Cons_cases)
    case (stop e)
    from stop(1) show ?thesis by (cases rule: sign_and_send_step_cases) simp_all
  next
    case (continue loc1 s1)
    from continue(1) obtain e1 where "transcript s1 = transcript s @ e1"
      by (cases rule: sign_and_send_step_cases) simp_all
    with Cons.IH [OF continue(2)] show ?thesis by auto
  qed
qed

lemma send_trace_Nil: "send_trace R accounts is hs hs (Inl e) []"
  by (simp add: send_trace_def)

lemma send_trace_built:
  "R i (fn, p, tx) \<Longrightarrow> tx_from p = address (the_acct accounts i) \<Longrightarrow>
   send_trace R accounts (i # is) hs hs (Inl e) [BuildTransaction fn p tx]"
  by (simp add: send_trace_def)

lemma send_trace_signed:
  "R i (fn, p, tx) \<Longrightarrow> tx_from p = address (the_acct accounts i) \<Longrightarrow>
   send_trace R accounts (i # is) hs hs (Inl e)
     [BuildTransaction fn p tx, SignTransaction (the_acct accounts i) tx raw]"
  by (simp add: send_trace_def)

lemma send_trace_sent:
  "R i (fn, p, tx) \<Longrightarrow> tx_from p = address (the_acct accounts i) \<Longrightarrow>
   send_trace R accounts is (hs @ [h]) hs' r evs \<Longrightarrow>
   send_trace R accounts (i # is) hs hs' r
     (BuildTransaction fn p tx # SignTransaction (the_acct accounts i) tx raw
        # SendRawTransaction raw h # evs)"
  by (simp add: send_trace_def)

lemma sign_and_send_trace:
  assumes "sign_and_send lib cfg c name af accounts is loc s = (r, loc', s')"
    and "transcript s' = transcript s @ evs"
  shows "send_trace (requested lib cfg c name af) accounts is (snd loc) (snd loc') r evs"
  using assms
proof (induction "is" arbitrary: loc s evs)
  case Nil
  then show ?case by (simp add: send_trace_def)
next
  case (Cons i "is")
  from Cons.prems(1) show ?case
  proof (cases rule: sign_and_send_Cons_cases)
    case (stop e)
    from stop(1) show ?thesis
    proof (cases rule: sign_and_send_step_cases)
      case (early e')
      with Cons.prems(2) stop(2) show ?thesis by (simp add: send_trace_Nil)
    next
      case (built e' fn p tx)
      from built(4) Cons.prems(2) have "evs = [BuildTransaction fn p tx]" by simp
      with built(3) stop(2) send_trace_built [where R = "requested lib cfg c name af", OF prepared_requested [OF built(2)] prepared_from [OF built(2)]]
      show ?thesis by simp
    next
      case (signed e' fn p tx raw)
      from signed(5) Cons.prems(2)
      have "evs = [BuildTransaction fn p tx, SignTransaction (the_acct accounts i) tx raw]"
        by simp
      with signed(3) stop(2) send_trace_signed [where R = "requested lib cfg c name af", OF prepared_requested [OF signed(2)] prepared_from [OF signed(2)]]
      show ?thesis by simp
    qed simp
  next
    case (continue loc1 s1)
    from sign_and_send_grows [OF continue(2)] obtain evs2
      where g: "transcript s' = transcript s1 @ evs2" by blast
    note ih = Cons.IH [OF continue(2) g]
    from continue(1) show ?thesis
    proof (cases rule: sign_and_send_step_cases)
      case (sent fn p tx raw h)
      with g Cons.prems(2) have evs: "evs = BuildTransaction fn p tx #
          SignTransaction (the_acct accounts i) tx raw # SendRawTransaction raw h # evs2"
        by simp
      from ih sent(3) have "send_trace (requested lib cfg c name af) accounts is (snd loc @ [h]) (snd loc') r evs2"
        by simp
      from send_trace_sent [where R = "requested lib cfg c name af", OF prepared_requested [OF sent(2)] prepared_from [OF sent(2)] this] show ?thesis
        unfolding evs .
    qed simp_all
  qed
qed

lemma bump_Some: "bn a = Some n \<Longrightarrow> bump bn b a = Some (if b = a then n + 1 else n)"
  by (simp add: bump_def split: option.splits)

lemma sign_and_send_nonces:
  assumes "sign_and_send lib cfg c name af accounts is loc s = (r, loc', s')"
    and "transcript s' = transcript s @ evs"
    and "fst loc a = Some n"
  shows "gapless_from n (nonces_for a evs) \<and> fst loc' a = Some (n + int (length (nonces_for a evs)))"
  using assms
proof (induction "is" arbitrary: loc s evs n)
  case Nil
  then show ?case by simp
next
  case (Cons i "is")
  let ?b = "address (the_acct accounts i)"
  have bump_a: "bump (fst loc) ?b a = Some (if ?b = a then n + 1 else n)"
    using Cons.prems(3) by (rule bump_Some)
  have pn: "tx_from p = ?b \<and> (?b = a \<longrightarrow> tx_nonce p = n)"
    if "prepared lib cfg c name af accounts i (fst loc) fn p" for fn p
    using Cons.prems(3) prepared_nonce [OF that] prepared_from [OF that] by auto
  have one: "gapless_from n (nonces_for a [BuildTransaction fn p tx]) \<and>
      Some (if ?b = a then n + 1 else n) = Some (n + int (length (nonces_for a [BuildTransaction fn p tx])))"
    if "prepared lib cfg c name af accounts i (fst loc) fn p" for fn p tx
    using pn [OF that] by (simp add: gapless_from_Cons)
  from Cons.prems(1) show ?case
  proof (cases rule: sign_and_send_Cons_cases)
    case (stop e)
    from stop(1) show ?thesis
    proof (cases rule: sign_and_send_step_cases)
      case (early e')
      with Cons.prems(2,3) show ?thesis by simp
    next
      case (built e' fn p tx)
      from built(4) Cons.prems(2) have evs: "evs = [BuildTransaction fn p tx]" by simp
      from built(3) bump_a have "fst loc' a = Some (if ?b = a then n + 1 else n)" by simp
      with one [OF built(2), of tx] show ?thesis unfolding evs by simp
    next
      case (signed e' fn p tx raw)
      from signed(5) Cons.prems(2)
      have evs: "evs = [BuildTransaction fn p tx] @ [SignTransaction (the_acct accounts i) tx raw]"
        by simp
      from signed(3) bump_a have "fst loc' a = Some (if ?b = a then n + 1 else n)" by simp
      with one [OF signed(2), of tx] show ?thesis unfolding evs nonces_for_simps(2) by simp
    qed simp
  next
    case (continue loc1 s1)
    from sign_and_send_grows [OF continue(2)] obtain evs2
      where g: "transcript s' = transcript s1 @ evs2" by blast
    from continue(1) show ?thesis
    proof (cases rule: sign_and_send_step_cases)
      case (sent fn p tx raw h)
      with g Cons.prems(2) have evs: "evs = BuildTransaction fn p tx #
          SignTransaction (the_acct accounts i) tx raw # SendRawTransaction raw h # evs2"
        by simp
      from sent(3) bump_a have l1: "fst loc1 a = Some (if ?b = a then n + 1 else n)" by simp
      note ih = Cons.IH [OF continue(2) g l1]
      show ?thesis
      proof (cases "?b = a")
        case True
        with ih pn [OF sent(2)] show ?thesis unfolding evs by (simp add: gapless_from_Cons)
      next
        case False
        with ih pn [OF sent(2)] show ?thesis unfolding evs by simp
      qed
    qed simp_all
  qed
qed

lemma sign_and_send_dom:
  assumes "sign_and_send lib cfg c name af accounts is loc s = (r, loc', s')"
  shows "dom (fst loc') = dom (fst loc)"
  using assms
proof (induction "is" arbitrary: loc s)
  case Nil
  then show ?case by simp
next
  case (Cons i "is")
  have d: "dom (bump bn b) = dom bn" for bn :: "address \<rightharpoonup> int" and b
    by (auto simp: bump_def split: option.splits if_splits)
  from Cons.prems(1) show ?case
  proof (cases rule: sign_and_send_Cons_cases)
    case (stop e)
    from stop(1) show ?thesis by (cases rule: sign_and_send_step_cases) (simp_all add: d)
  next
    case (continue loc1 s1)
    from continue(1) have "dom (fst loc1) = dom (fst loc)"
      by (cases rule: sign_and_send_step_cases) (simp_all add: d)
    with Cons.IH [OF continue(2)] show ?thesis by simp
  qed
qed

text \<open>collect\<close>

lemma collect_receipts_trace:
  assumes "collect_receipts lib hs g s = (r, g', s')"
  shows "\<exists>rs. length rs \<le> length hs \<and>
     transcript s' = transcript s @ map (\<lambda>(h, rc). WaitForTransactionReceipt h rc) (zip hs rs) \<and>
     g' = g @ map gasUsed rs \<and> (r = Inr () \<longrightarrow> length rs = length hs) \<and>
     list_all (answered lib) (zip hs rs)"
  using assms
proof (induction hs arbitrary: g s)
  case Nil
  then show ?case by simp
next
  case (Cons h hs)
  show ?case
  proof (cases "rpc_wait_for_transaction_receipt lib h s")
    case (Pair x s1)
    show ?thesis
    proof (cases x)
      case (Inl e)
      with Pair Cons.prems have "r = Inl e" "g' = g" "s' = s1" by simp_all
      moreover from Pair Inl have "transcript s1 = transcript s"
        by (auto simp: rpc_wait_for_transaction_receipt_def split: prod.splits sum.splits)
      ultimately show ?thesis by (intro exI [of _ "[]"]) simp
    next
      case (Inr rc)
      with Pair Cons.prems have run: "collect_receipts lib hs (g @ [gasUsed rc]) s1 = (r, g', s')"
        by simp
      from Pair Inr have t1: "transcript s1 = transcript s @ [WaitForTransactionReceipt h rc]"
        by (auto simp: rpc_wait_for_transaction_receipt_def split: prod.splits sum.splits)
      from Pair Inr have a1: "answered lib (h, rc)"
        by (auto simp: rpc_wait_for_transaction_receipt_def answered_def
            split: prod.splits sum.splits)
      from Cons.IH [OF run] obtain rs where rs: "length rs \<le> length hs"
        "transcript s' = transcript s1 @ map (\<lambda>(h, rc). WaitForTransactionReceipt h rc) (zip hs rs)"
        "g' = (g @ [gasUsed rc]) @ map gasUsed rs" "r = Inr () \<longrightarrow> length rs = length hs"
        "list_all (answered lib) (zip hs rs)"
        by blast
      with t1 a1 show ?thesis by (intro exI [of _ "rc # rs"]) simp
    qed
  qed
qed

lemma counts_map_zip [simp]:
  "counts (map (\<lambda>(a, n). GetTransactionCount a n) ps) = ps"
  by (induction ps) auto

lemma others_map_count [simp]:
  "builds (map (\<lambda>(a, n). GetTransactionCount a n) ps) = []"
  "signs (map (\<lambda>(a, n). GetTransactionCount a n) ps) = []"
  "sends (map (\<lambda>(a, n). GetTransactionCount a n) ps) = []"
  "waits (map (\<lambda>(a, n). GetTransactionCount a n) ps) = []"
  by (induction ps) auto

lemma waits_map_zip [simp]:
  "waits (map (\<lambda>(h, rc). WaitForTransactionReceipt h rc) ps) = ps"
  by (induction ps) auto

lemma others_map_wait [simp]:
  "builds (map (\<lambda>(h, rc). WaitForTransactionReceipt h rc) ps) = []"
  "signs (map (\<lambda>(h, rc). WaitForTransactionReceipt h rc) ps) = []"
  "sends (map (\<lambda>(h, rc). WaitForTransactionReceipt h rc) ps) = []"
  "counts (map (\<lambda>(h, rc). WaitForTransactionReceipt h rc) ps) = []"
  by (induction ps) auto

lemma rpc_get_transaction_count_cases:
  assumes "rpc_get_transaction_count lib a s = (x, s1)"
  obtains (fail) e where "x = Inl e" "transcript s1 = transcript s"
  | (ok) n where "x = Inr n" "transcript s1 = transcript s @ [GetTransactionCount a n]"
  using assms
  by (auto simp: rpc_get_transaction_count_def split: prod.splits sum.splits)

lemma query_base_nonces_trace:
  assumes "query_base_nonces lib accts m s = (r, s')"
  shows "\<exists>ns. length ns \<le> length accts \<and>
     transcript s' = transcript s @
        map (\<lambda>(a, n). GetTransactionCount a n) (zip (map address accts) ns) \<and>
     (\<forall>m'. r = Inr m' \<longrightarrow> length ns = length accts \<and>
        m' = fold (\<lambda>(a, n) m. m(a \<mapsto> n)) (zip (map address accts) ns) m)"
  using assms
proof (induction accts arbitrary: m s)
  case Nil
  then show ?case by auto
next
  case (Cons acct accts)
  obtain x s1 where step: "rpc_get_transaction_count lib (address acct) s = (x, s1)"
    by (cases "rpc_get_transaction_count lib (address acct) s")
  from step show ?case
  proof (cases rule: rpc_get_transaction_count_cases)
    case (fail e)
    with step Cons.prems have "r = Inl e" "s' = s1" by simp_all
    with fail show ?thesis by (intro exI [of _ "[]"]) simp
  next
    case (ok n)
    with step Cons.prems
    have run: "query_base_nonces lib accts (m(address acct \<mapsto> n)) s1 = (r, s')" by simp
    from Cons.IH [OF run] obtain ns where ns: "length ns \<le> length accts"
      "transcript s' = transcript s1 @
         map (\<lambda>(a, n). GetTransactionCount a n) (zip (map address accts) ns)"
      "\<forall>m'. r = Inr m' \<longrightarrow> length ns = length accts \<and>
         m' = fold (\<lambda>(a, n) m. m(a \<mapsto> n)) (zip (map address accts) ns)
                (m(address acct \<mapsto> n))"
      by blast
    show ?thesis
    proof (intro exI [of _ "n # ns"] conjI allI impI)
      show "length (n # ns) \<le> length (acct # accts)" using ns(1) by simp
      show "transcript s' = transcript s @ map (\<lambda>(a, n). GetTransactionCount a n)
          (zip (map address (acct # accts)) (n # ns))"
        using ns(2) ok(2) by simp
    next
      fix m' assume "r = Inr m'"
      with ns(3) show "length (n # ns) = length (acct # accts)" by simp
    next
      fix m' assume "r = Inr m'"
      with ns(3) show "m' = fold (\<lambda>(a, n) m. m(a \<mapsto> n))
          (zip (map address (acct # accts)) (n # ns)) m" by simp
    qed
  qed
qed

lemma call_deposit_many_multiacct_cases:
  assumes "call_deposit_many_multiacct lib cfg c name af accounts n s = (r, s')"
  obtains
    (query_failed) e where "query_base_nonces lib accounts Map.empty s = (Inl e, s')" "r = Inl e"
  | (send_failed) bn s0 e loc where "query_base_nonces lib accounts Map.empty s = (Inr bn, s0)"
      "sign_and_send lib cfg c name af accounts [0..n - 1] (bn, []) s0 = (Inl e, loc, s')"
      "r = Inl e"
  | (collect_failed) bn s0 loc s1 e g where
      "query_base_nonces lib accounts Map.empty s = (Inr bn, s0)"
      "sign_and_send lib cfg c name af accounts [0..n - 1] (bn, []) s0 = (Inr (), loc, s1)"
      "collect_receipts lib (snd loc) [] s1 = (Inl e, g, s')" "r = Inl e"
  | (completed) bn s0 loc s1 gas where
      "query_base_nonces lib accounts Map.empty s = (Inr bn, s0)"
      "sign_and_send lib cfg c name af accounts [0..n - 1] (bn, []) s0 = (Inr (), loc, s1)"
      "collect_receipts lib (snd loc) [] s1 = (Inr (), gas, s')"
      "r = Inr (gas, map hex (snd loc))"
  using assms unfolding call_deposit_many_multiacct_def
  by (auto split: prod.splits sum.splits)

lemma sign_and_send_nonces_None:
  assumes "sign_and_send lib cfg c name af accounts is loc s = (r, loc', s')"
    and "transcript s' = transcript s @ evs"
    and "fst loc a = None"
  shows "nonces_for a evs = []"
  using assms
proof (induction "is" arbitrary: loc s evs)
  case Nil
  then show ?case by simp
next
  case (Cons i "is")
  let ?b = "address (the_acct accounts i)"
  have ne: "tx_from p \<noteq> a"
    if "prepared lib cfg c name af accounts i (fst loc) fn p" for fn p
    using Cons.prems(3) prepared_nonce [OF that] by auto
  have bump_a: "bump (fst loc) b a = None" for b
    using Cons.prems(3) by (auto simp: bump_def split: option.splits)
  from Cons.prems(1) show ?case
  proof (cases rule: sign_and_send_Cons_cases)
    case (stop e)
    from stop(1) show ?thesis
    proof (cases rule: sign_and_send_step_cases)
      case (early e')
      with Cons.prems(2) show ?thesis by simp
    next
      case (built e' fn p tx)
      from built(4) Cons.prems(2) have evs: "evs = [BuildTransaction fn p tx]" by simp
      show ?thesis unfolding evs using ne [OF built(2)] by simp
    next
      case (signed e' fn p tx raw)
      from signed(5) Cons.prems(2)
      have evs: "evs = [BuildTransaction fn p tx, SignTransaction (the_acct accounts i) tx raw]"
        by simp
      show ?thesis unfolding evs using ne [OF signed(2)] by simp
    qed simp
  next
    case (continue loc1 s1)
    from sign_and_send_grows [OF continue(2)] obtain evs2
      where g: "transcript s' = transcript s1 @ evs2" by blast
    from continue(1) show ?thesis
    proof (cases rule: sign_and_send_step_cases)
      case (sent fn p tx raw h)
      with g Cons.prems(2) have evs: "evs = BuildTransaction fn p tx #
          SignTransaction (the_acct accounts i) tx raw # SendRawTransaction raw h # evs2"
        by simp
      from sent(3) bump_a have "fst loc1 a = None" by simp
      from Cons.IH [OF continue(2) g this] ne [OF sent(2)]
      show ?thesis unfolding evs by simp
    qed simp_all
  qed
qed

lemma gapless_from_append: "gapless_from c (xs @ ys) \<Longrightarrow> gapless_from c xs"
proof (induction xs arbitrary: c)
  case Nil
  then show ?case by simp
next
  case (Cons x xs)
  then show ?case by (simp add: gapless_from_Cons)
qed

lemma queried_nonces_counts:
  "counts evs = counts evs' \<Longrightarrow> queried_nonces evs = queried_nonces evs'"
  by (simp add: queried_nonces_def)

lemma count_events_simps [simp]:
  "counts (count_events ps) = ps" "builds (count_events ps) = []" "signs (count_events ps) = []"
  "sends (count_events ps) = []" "waits (count_events ps) = []"
  "nonces_for a (count_events ps) = []"
  by (simp_all add: count_events_def nonces_for_def)

lemma wait_events_simps [simp]:
  "waits (wait_events qs) = qs" "builds (wait_events qs) = []" "signs (wait_events qs) = []"
  "sends (wait_events qs) = []" "counts (wait_events qs) = []"
  "nonces_for a (wait_events qs) = []"
  by (simp_all add: wait_events_def nonces_for_def)

lemma map_fst_zip_le: "length ys \<le> length xs \<Longrightarrow> map fst (zip xs ys) = take (length ys) xs"
  by (simp add: map_fst_zip_take min_def)

lemma map_snd_zip_le: "length ys \<le> length xs \<Longrightarrow> map snd (zip xs ys) = ys"
  by (simp add: map_snd_zip_take min_def)

lemma pipeline_trace_intro:
  assumes q: "query_base_nonces lib accounts Map.empty s = (Inr bn, s0)"
    and ss: "sign_and_send lib cfg c name af accounts [0..n - 1] (bn, []) s0 = (r1, loc, s1)"
    and w: "transcript s' = transcript s1 @ wait_events (zip (snd loc) rs)"
      "length rs \<le> length (snd loc)" "list_all (answered lib) (zip (snd loc) rs)"
    and fin: "\<forall>gas hexs. r = Inr (gas, hexs) \<longrightarrow>
      r1 = Inr () \<and> length rs = length (snd loc) \<and> gas = map gasUsed rs \<and> hexs = map hex (snd loc)"
  shows "\<exists>evs. transcript s' = transcript s @ evs \<and> pipeline_trace (requested lib cfg c name af) (answered lib) accounts n r evs"
proof -
  from query_base_nonces_trace [OF q] obtain ns where ns:
    "length ns = length accounts"
    "transcript s0 = transcript s @ count_events (zip (map address accounts) ns)"
    "bn = fold (\<lambda>(a, n) m. m(a \<mapsto> n)) (zip (map address accounts) ns) Map.empty"
    unfolding count_events_def by blast
  let ?ps = "zip (map address accounts) ns"
  let ?qs = "zip (snd loc) rs"
  have bn: "queried_nonces (count_events ?ps) = bn"
    by (simp add: queried_nonces_def ns(3))
  from sign_and_send_grows [OF ss] obtain e1 where e1: "transcript s1 = transcript s0 @ e1"
    by blast
  from sign_and_send_trace [OF ss e1] have tr: "send_trace (requested lib cfg c name af) accounts [0..n - 1] [] (snd loc) r1 e1"
    by simp
  have g: "gapless_from c0 (nonces_for a e1)" if "bn a = Some c0" for a c0
    using sign_and_send_nonces [OF ss e1, of a c0] that by simp
  have z: "nonces_for a e1 = []" if "bn a = None" for a
    using sign_and_send_nonces_None [OF ss e1, of a] that by simp
  have ps: "map fst ?ps = take (length ?ps) (map address accounts)"
    using ns(1) by (simp add: map_fst_zip_le)
  have qs: "map fst ?qs = take (length ?qs) (snd loc)"
    using w(2) by (simp add: map_fst_zip_le)
  have fin': "\<forall>gas hexs. r = Inr (gas, hexs) \<longrightarrow>
           r1 = Inr () \<and> length ?ps = length accounts \<and> length ?qs = length (snd loc) \<and>
           gas = map (gasUsed \<circ> snd) ?qs \<and> hexs = map hex (snd loc)"
    using fin ns(1) w(2) by (auto simp: map_snd_zip_le simp flip: map_map)
  have "pipeline_trace (requested lib cfg c name af) (answered lib) accounts n r (count_events ?ps @ e1 @ wait_events ?qs)"
    unfolding pipeline_trace_def
    apply (rule exI [of _ ?ps])
    apply (rule exI [of _ e1])
    apply (rule exI [of _ ?qs])
    apply (rule exI [of _ "snd loc"])
    apply (rule exI [of _ r1])
    apply (intro conjI)
           apply (rule refl)
          apply (rule ps)
        apply (rule tr)
       apply (rule w(3))
       apply (simp only: bn, use g in blast)
      apply (simp only: bn, use z in blast)
     apply (rule qs)
    apply (rule fin')
    done
  moreover have "transcript s' = transcript s @ count_events ?ps @ e1 @ wait_events ?qs"
    using w(1) e1 ns(2) by simp
  ultimately show ?thesis by blast
qed

lemma pipeline_structure:
  assumes run: "call_deposit_many_multiacct lib cfg c name af accounts n s = (r, s')"
  shows "\<exists>evs. transcript s' = transcript s @ evs \<and> pipeline_trace (requested lib cfg c name af) (answered lib) accounts n r evs"
  using run
proof (cases rule: call_deposit_many_multiacct_cases)
  case (query_failed e)
  from query_base_nonces_trace [OF query_failed(1)] obtain ns where ns:
    "length ns \<le> length accounts"
    "transcript s' = transcript s @ count_events (zip (map address accounts) ns)"
    unfolding count_events_def by blast
  have "pipeline_trace (requested lib cfg c name af) (answered lib) accounts n r (count_events (zip (map address accounts) ns) @ [] @ wait_events [])"
    unfolding pipeline_trace_def
    apply (rule exI [of _ "zip (map address accounts) ns"])
    apply (rule exI [of _ "[]"])
    apply (rule exI [of _ "[]"])
    apply (rule exI [of _ "[]"])
    apply (rule exI [of _ "Inl e"])
    using ns(1) query_failed(2)
    apply (simp add: send_trace_Nil map_fst_zip_le)
    done
  with ns(2) show ?thesis by (simp add: wait_events_def)
next
  case (send_failed bn s0 e loc)
  show ?thesis
    by (rule pipeline_trace_intro [OF send_failed(1,2), of s' "[]"])
      (simp_all add: wait_events_def send_failed(3))
next
  case (collect_failed bn s0 loc s1 e g)
  from collect_receipts_trace [OF collect_failed(3)] obtain rs where
    "length rs \<le> length (snd loc)"
    "transcript s' = transcript s1 @ wait_events (zip (snd loc) rs)"
    "list_all (answered lib) (zip (snd loc) rs)"
    unfolding wait_events_def by blast
  then show ?thesis
    by (intro pipeline_trace_intro [OF collect_failed(1,2), of s' rs])
      (simp_all add: collect_failed(4))
next
  case (completed bn s0 loc s1 gas)
  from collect_receipts_trace [OF completed(3)] obtain rs where
    "length rs = length (snd loc)"
    "transcript s' = transcript s1 @ wait_events (zip (snd loc) rs)"
    "gas = map gasUsed rs" "list_all (answered lib) (zip (snd loc) rs)"
    unfolding wait_events_def by auto
  then show ?thesis
    by (intro pipeline_trace_intro [OF completed(1,2), of s' rs])
      (simp_all add: completed(4))
qed

lemma the_acct_in_set: "accounts \<noteq> [] \<Longrightarrow> the_acct accounts i \<in> set accounts"
  unfolding the_acct_def
  by (rule nth_mem) (simp add: nat_less_iff)

lemma sign_and_send_step_total:
  assumes ok: "answers lib" and ne: "accounts \<noteq> []"
    and dom: "address ` set accounts \<subseteq> dom (fst loc)"
  shows "\<exists>loc' s'. sign_and_send_step lib cfg c name af accounts i loc s = (Inr (), loc', s')"
proof -
  let ?acct = "accounts ! nat (i mod int (length accounts))"
  from ok obtain f where f: "get_function lib c name = Inr f"
    unfolding answers_def by blast
  from ok obtain fn where fn: "apply_function lib f (af i) = Inr fn"
    unfolding answers_def by blast
  from the_acct_in_set [OF ne, of i] dom obtain nonce where
    nonce: "fst loc (address ?acct) = Some nonce"
    unfolding the_acct_def by auto
  from ok obtain price where price: "to_wei lib (GAS_PRICE_GWEI cfg) ''gwei'' = Inr price"
    unfolding answers_def by blast
  let ?p = "\<lparr>tx_from = address ?acct, tx_nonce = nonce, tx_gasPrice = price\<rparr>"
  from ok obtain tx w1 where "build_transaction lib (world s) fn ?p = (Inr tx, w1)"
    unfolding answers_def by blast
  then obtain s1 where b: "rpc_build_transaction lib fn ?p s = (Inr tx, s1)"
    by (simp add: rpc_build_transaction_def)
  from ok obtain raw where "sign_transaction lib ?acct tx = Inr raw"
    unfolding answers_def by blast
  then obtain s2 where sg: "acct_sign_transaction lib ?acct tx s1 = (Inr raw, s2)"
    by (simp add: acct_sign_transaction_def)
  from ok obtain h w3 where "send_raw_transaction lib (world s2) raw = (Inr h, w3)"
    unfolding answers_def by blast
  then obtain s3 where sd: "rpc_send_raw_transaction lib raw s2 = (Inr h, s3)"
    by (simp add: rpc_send_raw_transaction_def)
  show ?thesis
    unfolding sign_and_send_step_def Let_def
    by (simp add: ne f fn nonce price b sg sd)
qed

lemma sign_and_send_total:
  assumes ok: "answers lib" and ne: "accounts \<noteq> []"
    and dom: "address ` set accounts \<subseteq> dom (fst loc)"
  shows "\<exists>loc' s'. sign_and_send lib cfg c name af accounts is loc s = (Inr (), loc', s')"
  using dom
proof (induction "is" arbitrary: loc s)
  case Nil
  then show ?case by simp
next
  case (Cons i "is")
  from sign_and_send_step_total [OF ok ne Cons.prems, of cfg c name af i s]
  obtain loc1 s1 where
    st: "sign_and_send_step lib cfg c name af accounts i loc s = (Inr (), loc1, s1)" by blast
  then have "sign_and_send lib cfg c name af accounts [i] loc s = (Inr (), loc1, s1)" by simp
  from sign_and_send_dom [OF this] Cons.prems
  have "address ` set accounts \<subseteq> dom (fst loc1)" by simp
  from Cons.IH [OF this, of s1] st show ?case by simp
qed

lemma collect_receipts_total:
  assumes ok: "answers lib"
  shows "\<exists>g' s'. collect_receipts lib hs g s = (Inr (), g', s')"
proof (induction hs arbitrary: g s)
  case Nil
  then show ?case by simp
next
  case (Cons h hs)
  from ok obtain rc w1 where "wait_for_transaction_receipt lib (world s) h = (Inr rc, w1)"
    unfolding answers_def by blast
  then obtain s1 where "rpc_wait_for_transaction_receipt lib h s = (Inr rc, s1)"
    by (simp add: rpc_wait_for_transaction_receipt_def)
  with Cons.IH [of "g @ [gasUsed rc]" s1] show ?case by simp
qed

lemma query_base_nonces_total:
  assumes ok: "\<forall>w a. \<exists>n w'. get_transaction_count lib w a = (Inr n, w')"
  shows "\<exists>m' s'. query_base_nonces lib accts m s = (Inr m', s')
     \<and> dom m' = dom m \<union> address ` set accts"
proof (induction accts arbitrary: m s)
  case Nil
  then show ?case by simp
next
  case (Cons acct accts)
  from ok obtain n w1 where "get_transaction_count lib (world s) (address acct) = (Inr n, w1)"
    by blast
  then obtain s1 where st: "rpc_get_transaction_count lib (address acct) s = (Inr n, s1)"
    by (simp add: rpc_get_transaction_count_def)
  from Cons.IH [of "m(address acct \<mapsto> n)" s1] obtain m' s' where
    "query_base_nonces lib accts (m(address acct \<mapsto> n)) s1 = (Inr m', s')"
    "dom m' = dom (m(address acct \<mapsto> n)) \<union> address ` set accts" by blast
  then have "query_base_nonces lib (acct # accts) m s = (Inr m', s')
      \<and> dom m' = dom m \<union> address ` set (acct # accts)"
    using st by simp
  then show ?case by blast
qed

lemma call_deposit_many_multiacct_total:
  assumes ok: "answers lib" and ne: "accounts \<noteq> []"
  shows "\<exists>gas hexs s'. call_deposit_many_multiacct lib cfg c name af accounts n s
           = (Inr (gas, hexs), s')"
proof -
  from ok have "\<forall>w a. \<exists>n w'. get_transaction_count lib w a = (Inr n, w')"
    unfolding answers_def by blast
  from query_base_nonces_total [OF this, of accounts Map.empty s] obtain bn s0 where
    q: "query_base_nonces lib accounts Map.empty s = (Inr bn, s0)"
    "dom bn = address ` set accounts" by auto
  from q(2) have "address ` set accounts \<subseteq> dom (fst (bn, []))" by simp
  from sign_and_send_total [OF ok ne this, of cfg c name af "[0..n - 1]" s0]
  obtain loc s1 where
    ss: "sign_and_send lib cfg c name af accounts [0..n - 1] (bn, []) s0 = (Inr (), loc, s1)"
    by blast
  from collect_receipts_total [OF ok, of "snd loc" "[]" s1] obtain gas s2 where
    "collect_receipts lib (snd loc) [] s1 = (Inr (), gas, s2)" by blast
  with q(1) ss show ?thesis
    by (simp add: call_deposit_many_multiacct_def)
qed

lemma stub_chain_answers: "answers stub_chain"
  by (simp add: answers_def stub_chain_def)

lemma length_upto_0: "length [0..n - 1] = nat n"
  by simp

lemma nth_upto_0: "j < nat n \<Longrightarrow> [0..n - 1] ! j = int j"
  by (simp add: nth_upto)

lemma pipeline_traceE:
  assumes "pipeline_trace R A accounts n r evs"
  obtains (trace) ps e1 qs hs r1 where
    "evs = count_events ps @ e1 @ wait_events qs"
    "map fst ps = take (length ps) (map address accounts)"
    "send_trace R accounts [0..n - 1] [] hs r1 e1" "list_all A qs"
    "\<forall>a c0. queried_nonces (count_events ps) a = Some c0 \<longrightarrow> gapless_from c0 (nonces_for a e1)"
    "\<forall>a. queried_nonces (count_events ps) a = None \<longrightarrow> nonces_for a e1 = []"
    "map fst qs = take (length qs) hs"
    "\<forall>gas hexs. r = Inr (gas, hexs) \<longrightarrow>
           r1 = Inr () \<and> length ps = length accounts \<and> length qs = length hs \<and>
           gas = map (gasUsed \<circ> snd) qs \<and> hexs = map hex hs"
  using assms unfolding pipeline_trace_def by (elim exE conjE) (rule that; assumption)

lemma send_traceE:
  assumes "send_trace R accounts is hs hs' r evs"
  obtains (facts) "hs' = hs @ map snd (sends evs)"
    "list_all2 R (take (length (builds evs)) is) (builds evs)"
    "map fst (signs evs) = map (the_acct accounts) (take (length (signs evs)) is)"
    "map (fst \<circ> snd) (signs evs) = take (length (signs evs)) (map (snd \<circ> snd) (builds evs))"
    "map fst (sends evs) = take (length (sends evs)) (map (snd \<circ> snd) (signs evs))"
    "map (tx_from \<circ> fst \<circ> snd) (builds evs)
       = map (address \<circ> the_acct accounts) (take (length (builds evs)) is)"
    "length (builds evs) \<le> length is" "waits evs = []" "counts evs = []"
    "r = Inr () \<longrightarrow> length (sends evs) = length is \<and> length (signs evs) = length is
        \<and> length (builds evs) = length is"
  using assms unfolding send_trace_def by (elim conjE) (rule that; assumption)

lemma pipeline_trace_completed:
  assumes "pipeline_trace R A accounts n (Inr (gas, hexs)) evs"
  shows "\<exists>hs. length hs = nat n \<and> hexs = map hex hs \<and> gas = map (gasUsed \<circ> snd) (waits evs) \<and>
     map snd (sends evs) = hs \<and> map fst (waits evs) = hs \<and>
     list_all2 R [0..n - 1] (builds evs) \<and> list_all A (waits evs) \<and>
     map fst (signs evs) = map (the_acct accounts) [0..n - 1] \<and>
     map (snd \<circ> snd) (builds evs) = map (fst \<circ> snd) (signs evs) \<and>
     map (snd \<circ> snd) (signs evs) = map fst (sends evs) \<and>
     map fst (counts evs) = map address accounts"
  using assms
proof (cases rule: pipeline_traceE)
  case (trace ps e1 qs hs r1)
  note evs = trace(1)
  from trace(8) have fin': "r1 = Inr () \<and> length ps = length accounts \<and> length qs = length hs \<and>
           gas = map (gasUsed \<circ> snd) qs \<and> hexs = map hex hs"
    by (elim allE [of _ gas] allE [of _ hexs] impE) (rule refl)
  then have r1: "r1 = Inr ()" and ps2: "length ps = length accounts"
    and qs3: "length qs = length hs"
    and out: "gas = map (gasUsed \<circ> snd) qs" "hexs = map hex hs"
    by simp_all
  note ps = trace(2) ps2 and qs = trace(4) trace(7) qs3
  from trace(3) [unfolded r1] show ?thesis
  proof (cases rule: send_traceE)
    case facts
    note b = facts(2) and sg = facts(3) and bs = facts(4) and ss = facts(5) and c1 = facts(9)
    from facts(1) have hs: "hs = map snd (sends e1)" by simp
    from facts(10) have len: "length (sends e1) = nat n" "length (signs e1) = nat n"
      "length (builds e1) = nat n"
      by simp_all
  have ex: "builds evs = builds e1" "signs evs = signs e1" "sends evs = sends e1"
    "waits evs = qs" "counts evs = ps @ counts e1"
    unfolding evs by (simp_all add: facts(8))
  show ?thesis
  proof (intro exI [of _ hs] conjI)
    show "length hs = nat n" using hs len(1) by simp
    show "hexs = map hex hs" by (rule out(2))
    show "gas = map (gasUsed \<circ> snd) (waits evs)" unfolding ex by (rule out(1))
    show "map snd (sends evs) = hs" unfolding ex hs ..
    show "map fst (waits evs) = hs" unfolding ex using qs(2,3) by simp
    show "list_all2 R [0..n - 1] (builds evs)" unfolding ex using b len(3) by simp
    show "list_all A (waits evs)" unfolding ex by (rule qs(1))
    show "map fst (signs evs) = map (the_acct accounts) [0..n - 1]"
      unfolding ex using sg len(2) by simp
    show "map (snd \<circ> snd) (builds evs) = map (fst \<circ> snd) (signs evs)"
      unfolding ex using bs len(2,3) by simp
    show "map (snd \<circ> snd) (signs evs) = map fst (sends evs)"
      unfolding ex using ss len(1,2) by simp
    show "map fst (counts evs) = map address accounts"
      unfolding ex c1 using ps by simp
  qed
  qed
qed

lemma gapless_from_nth: "gapless_from c ns \<Longrightarrow> j < length ns \<Longrightarrow> ns ! j = c + int j"
proof -
  assume g: "gapless_from c ns" and j: "j < length ns"
  from g have "ns ! j = map (\<lambda>j. c + int j) [0..<length ns] ! j"
    unfolding gapless_from_def by (rule arg_cong)
  also from j have "\<dots> = c + int j" by simp
  finally show ?thesis .
qed

lemma gapless_from_sorted: "gapless_from c ns \<Longrightarrow> sorted_wrt (<) ns"
  by (simp add: sorted_wrt_iff_nth_less gapless_from_nth)

lemma map_take_nth:
  assumes "map f xs = map g (take (length xs) ys)" and "j < length xs"
  shows "j < length ys \<and> f (xs ! j) = g (ys ! j)"
proof -
  from assms(1) have "length (map f xs) = length (map g (take (length xs) ys))"
    by (rule arg_cong)
  then have le: "length xs \<le> length ys" by simp
  from assms(1) have "map f xs ! j = map g (take (length xs) ys) ! j" by (rule arg_cong)
  with assms(2) le show ?thesis by simp
qed

lemma take_map_nth:
  assumes "map f xs = take (length xs) (map g ys)" and "j < length xs"
  shows "j < length ys \<and> f (xs ! j) = g (ys ! j)"
  using assms by (intro map_take_nth) (simp add: take_map)

lemma the_acct_nat: "the_acct accounts (int j) = accounts ! (j mod length accounts)"
  by (simp add: the_acct_def flip: zmod_int)

lemma map_const_replicate: "\<forall>x\<in>set xs. f x = c \<Longrightarrow> map f xs = replicate (length xs) c"
  by (induction xs) simp_all

lemma pipeline_events:
  assumes run: "call_deposit_many_multiacct lib cfg c name af accounts n s = (r, s')"
    and ev: "transcript s' = transcript s @ evs"
  shows "pipeline_trace (requested lib cfg c name af) (answered lib) accounts n r evs"
proof -
  from pipeline_structure [OF run] obtain evs' where
    "transcript s' = transcript s @ evs'"
    "pipeline_trace (requested lib cfg c name af) (answered lib) accounts n r evs'"
    by blast
  with ev show ?thesis by simp
qed

lemma upto_from_0: "[0..2] = [0, 1, (2::int)]" "[0..4] = [0, 1, 2, 3, (4::int)]"
  by (simp_all add: upto.simps)

lemmas stub_simps = call_deposit_many_multiacct_def sign_and_send_step_def
  rpc_get_transaction_count_def rpc_build_transaction_def acct_sign_transaction_def
  rpc_send_raw_transaction_def rpc_wait_for_transaction_receipt_def
  stub_chain_def two_accounts_def default_config_def deposit_contract_def leaf_args_def
  fresh_def Let_def upto_from_0

lemma stub_run3_nonces:
  "nonces_for ''0xA0'' (transcript (snd (call_deposit_many_multiacct stub_chain default_config
       deposit_contract ''deposit'' leaf_args two_accounts 3 fresh))) = [0, 1]"
  "queried_nonces (transcript (snd (call_deposit_many_multiacct stub_chain default_config
       deposit_contract ''deposit'' leaf_args two_accounts 3 fresh))) ''0xA0'' = Some 0"
  by (simp_all add: stub_simps queried_nonces_def)

text \<open>
  Claim C3. In every run of \<open>call_deposit_many_multiacct\<close>, whatever its outcome, and for
  every prefix \<open>p\<close> of the library calls it has made: the nonces it has put into the
  transactions of one address \<open>a\<close> are, in the order assigned, \<open>c0, c0 + 1, c0 + 2, \<dots>\<close>
  (gapless, hence strictly increasing), where \<open>c0\<close> is the transaction count of \<open>a\<close> that
  the run queried at its start; and an address that was given a nonce was queried.
\<close>

theorem pipeliner_nonces_gapless:
  assumes run: "call_deposit_many_multiacct lib cfg c name af accounts n s = (r, s')"
    and ev: "transcript s' = transcript s @ evs"
    and pre: "prefix p evs"
  shows "(nonces_for a p \<noteq> [] \<longrightarrow> queried_nonces evs a \<noteq> None) \<and>
     (\<forall>c0. queried_nonces evs a = Some c0 \<longrightarrow>
        nonces_for a p = map (\<lambda>j. c0 + int j) [0..<length (nonces_for a p)] \<and>
        sorted_wrt (<) (nonces_for a p))"
  using pipeline_events [OF run ev]
proof (cases rule: pipeline_traceE)
  case (trace ps e1 qs hs r1)
  from pre obtain q where q: "evs = p @ q" by (auto simp: prefix_def)
  from trace(3) have c1: "counts e1 = []" by (cases rule: send_traceE)
  have "counts evs = counts (count_events ps)" unfolding trace(1) by (simp add: c1)
  then have qn: "queried_nonces evs = queried_nonces (count_events ps)"
    by (rule queried_nonces_counts)
  have "nonces_for a evs = nonces_for a e1" unfolding trace(1) by simp
  then have split: "nonces_for a e1 = nonces_for a p @ nonces_for a q"
    unfolding q by simp
  show ?thesis
  proof (intro conjI impI allI)
    assume "nonces_for a p \<noteq> []"
    with split have "nonces_for a e1 \<noteq> []" by simp
    with trace(6) show "queried_nonces evs a \<noteq> None" unfolding qn by blast
  next
    fix c0 assume "queried_nonces evs a = Some c0"
    with trace(5) have "gapless_from c0 (nonces_for a e1)" unfolding qn by blast
    then have g: "gapless_from c0 (nonces_for a p)"
      unfolding split by (rule gapless_from_append)
    then show "nonces_for a p = map (\<lambda>j. c0 + int j) [0..<length (nonces_for a p)]"
      unfolding gapless_from_def .
    from g show "sorted_wrt (<) (nonces_for a p)" by (rule gapless_from_sorted)
  qed
qed

text \<open>
  Three calls over two accounts on the stub chain: the first account is queried at
  count 0 and its two transactions carry the nonces 0 and 1.
\<close>

theorem pipeliner_nonces_gapless_witness:
  "prefix (transcript (snd (call_deposit_many_multiacct stub_chain default_config
       deposit_contract ''deposit'' leaf_args two_accounts 3 fresh)))
     (transcript (snd (call_deposit_many_multiacct stub_chain default_config
       deposit_contract ''deposit'' leaf_args two_accounts 3 fresh))) \<and>
   queried_nonces (transcript (snd (call_deposit_many_multiacct stub_chain default_config
       deposit_contract ''deposit'' leaf_args two_accounts 3 fresh))) ''0xA0'' = Some 0 \<and>
   nonces_for ''0xA0'' (transcript (snd (call_deposit_many_multiacct stub_chain default_config
       deposit_contract ''deposit'' leaf_args two_accounts 3 fresh))) = [0, 1] \<and>
   sorted_wrt (<) (nonces_for ''0xA0'' (transcript (snd (call_deposit_many_multiacct stub_chain
       default_config deposit_contract ''deposit'' leaf_args two_accounts 3 fresh))))"
proof -
  let ?run = "call_deposit_many_multiacct stub_chain default_config
       deposit_contract ''deposit'' leaf_args two_accounts 3 fresh"
  have run: "?run = (fst ?run, snd ?run)" by simp
  have ev: "transcript (snd ?run) = transcript fresh @ transcript (snd ?run)"
    by (simp add: fresh_def)
  have pre: "prefix (transcript (snd ?run)) (transcript (snd ?run))" by simp
  from pipeliner_nonces_gapless [OF run ev pre, of "''0xA0''"] stub_run3_nonces(2)
  have "sorted_wrt (<) (nonces_for ''0xA0'' (transcript (snd ?run)))" by blast
  with pre stub_run3_nonces show ?thesis by blast
qed

lemma round_robin_positions:
  assumes tr: "pipeline_trace R A accounts n r evs" and j: "j < length (signs evs)"
  shows "fst (signs evs ! j) = accounts ! (j mod length accounts) \<and>
     tx_from (fst (snd (builds evs ! j))) = address (accounts ! (j mod length accounts)) \<and>
     fst (snd (signs evs ! j)) = snd (snd (builds evs ! j)) \<and>
     (j < length (sends evs) \<longrightarrow> fst (sends evs ! j) = snd (snd (signs evs ! j)))"
  using tr
proof (cases rule: pipeline_traceE)
  case (trace ps e1 qs hs r1)
  from trace(3) show ?thesis
  proof (cases rule: send_traceE)
    case facts
    have ex: "signs evs = signs e1" "builds evs = builds e1" "sends evs = sends e1"
      unfolding trace(1) by simp_all
    from j have j1: "j < length (signs e1)" unfolding ex .
    from map_take_nth [OF facts(3) j1] have a: "j < length [0..n - 1]"
      "fst (signs e1 ! j) = the_acct accounts ([0..n - 1] ! j)" by simp_all
    from a(1) have idx: "[0..n - 1] ! j = int j" by (simp add: nth_upto)
    from take_map_nth [OF facts(4) j1] have b: "j < length (builds e1)"
      "fst (snd (signs e1 ! j)) = snd (snd (builds e1 ! j))" by simp_all
    from map_take_nth [OF facts(6) b(1)]
    have c: "tx_from (fst (snd (builds e1 ! j))) = address (the_acct accounts ([0..n - 1] ! j))"
      by simp
    have d: "fst (sends e1 ! j) = snd (snd (signs e1 ! j))" if "j < length (sends e1)"
      using take_map_nth [OF facts(5) that] by simp
    from a(2) b(2) c d show ?thesis unfolding ex idx the_acct_nat by blast
  qed
qed

lemma stub_scenario:
  assumes run: "call_deposit_many_multiacct lib cfg c name af accounts 5 s = (r, s')"
    and ev: "transcript s' = transcript s @ evs"
    and ok: "answers lib" and gas: "\<forall>q. answered lib q \<longrightarrow> gasUsed (snd q) = 21000"
    and two: "length accounts = 2"
  shows "(\<exists>hexs. r = Inr ([21000, 21000, 21000, 21000, 21000], hexs)) \<and>
     map fst (signs evs) = [accounts ! 0, accounts ! 1, accounts ! 0, accounts ! 1, accounts ! 0]"
proof -
  from two have ne: "accounts \<noteq> []" by auto
  from call_deposit_many_multiacct_total [OF ok ne, of cfg c name af 5 s] run
  obtain gs hexs where r: "r = Inr (gs, hexs)" by auto
  from pipeline_events [OF run ev]
  have "pipeline_trace (requested lib cfg c name af) (answered lib) accounts 5
      (Inr (gs, hexs)) evs" unfolding r .
  from pipeline_trace_completed [OF this] obtain hs where hs:
    "length hs = nat 5" "gs = map (gasUsed \<circ> snd) (waits evs)" "map fst (waits evs) = hs"
    "list_all (answered lib) (waits evs)"
    "map fst (signs evs) = map (the_acct accounts) [0..5 - 1]"
    by blast
  from hs(3) have "length (waits evs) = length hs" by (simp flip: length_map [of fst])
  with hs(1) have len: "length (waits evs) = 5" by simp
  from hs(4) gas have "\<forall>q\<in>set (waits evs). (gasUsed \<circ> snd) q = 21000"
    by (auto simp: list_all_iff)
  from map_const_replicate [OF this] have "gs = replicate 5 21000" unfolding hs(2) len .
  then have g: "gs = [21000, 21000, 21000, 21000, 21000]" by (simp add: numeral_eq_Suc)
  from hs(5) two
  have "map fst (signs evs) = [accounts ! 0, accounts ! 1, accounts ! 0, accounts ! 1, accounts ! 0]"
    by (simp add: upto_from_0 the_acct_def)
  with r g show ?thesis by blast
qed

text \<open>
  Claim C2. In every run of \<open>call_deposit_many_multiacct\<close>, the \<open>j\<close>-th transaction that is
  signed is signed by account \<open>j mod len(accounts)\<close> of the pool, it is the \<open>j\<close>-th
  transaction built, built with that account's address as sender, and what is sent
  \<open>j\<close>-th is this signed transaction. In particular, on a chain that answers every call
  and whose receipts all have gas 21000, five calls over two accounts return five gas
  values 21000 and are signed by the accounts 0, 1, 0, 1, 0.
\<close>

theorem pipeliner_round_robin:
  assumes run: "call_deposit_many_multiacct lib cfg c name af accounts n s = (r, s')"
    and ev: "transcript s' = transcript s @ evs"
  shows "(\<forall>j < length (signs evs).
        fst (signs evs ! j) = accounts ! (j mod length accounts) \<and>
        tx_from (fst (snd (builds evs ! j))) = address (accounts ! (j mod length accounts)) \<and>
        fst (snd (signs evs ! j)) = snd (snd (builds evs ! j)) \<and>
        (j < length (sends evs) \<longrightarrow> fst (sends evs ! j) = snd (snd (signs evs ! j)))) \<and>
     (answers lib \<and> (\<forall>q. answered lib q \<longrightarrow> gasUsed (snd q) = 21000) \<and> n = 5 \<and>
      length accounts = 2 \<longrightarrow>
        (\<exists>hexs. r = Inr ([21000, 21000, 21000, 21000, 21000], hexs)) \<and>
        map fst (signs evs)
          = [accounts ! 0, accounts ! 1, accounts ! 0, accounts ! 1, accounts ! 0])"
proof (rule conjI)
  show "\<forall>j < length (signs evs).
        fst (signs evs ! j) = accounts ! (j mod length accounts) \<and>
        tx_from (fst (snd (builds evs ! j))) = address (accounts ! (j mod length accounts)) \<and>
        fst (snd (signs evs ! j)) = snd (snd (builds evs ! j)) \<and>
        (j < length (sends evs) \<longrightarrow> fst (sends evs ! j) = snd (snd (signs evs ! j)))"
  proof (intro allI impI)
    fix j assume "j < length (signs evs)"
    with pipeline_events [OF run ev]
    show "fst (signs evs ! j) = accounts ! (j mod length accounts) \<and>
        tx_from (fst (snd (builds evs ! j))) = address (accounts ! (j mod length accounts)) \<and>
        fst (snd (signs evs ! j)) = snd (snd (builds evs ! j)) \<and>
        (j < length (sends evs) \<longrightarrow> fst (sends evs ! j) = snd (snd (signs evs ! j)))"
      by (rule round_robin_positions)
  qed
next
  show "answers lib \<and> (\<forall>q. answered lib q \<longrightarrow> gasUsed (snd q) = 21000) \<and> n = 5 \<and>
      length accounts = 2 \<longrightarrow>
        (\<exists>hexs. r = Inr ([21000, 21000, 21000, 21000, 21000], hexs)) \<and>
        map fst (signs evs)
          = [accounts ! 0, accounts ! 1, accounts ! 0, accounts ! 1, accounts ! 0]"
  proof (rule impI)
    assume a: "answers lib \<and> (\<forall>q. answered lib q \<longrightarrow> gasUsed (snd q) = 21000) \<and> n = 5 \<and>
      length accounts = 2"
    then have n: "n = 5" by blast
    from a have "answers lib" "\<forall>q. answered lib q \<longrightarrow> gasUsed (snd q) = 21000"
      "length accounts = 2" by blast+
    then show "(\<exists>hexs. r = Inr ([21000, 21000, 21000, 21000, 21000], hexs)) \<and>
        map fst (signs evs)
          = [accounts ! 0, accounts ! 1, accounts ! 0, accounts ! 1, accounts ! 0]"
      by (rule stub_scenario [OF run [unfolded n] ev])
  qed
qed

lemma stub_run5:
  "fst (call_deposit_many_multiacct stub_chain default_config
       deposit_contract ''deposit'' leaf_args two_accounts 5 fresh)
     = Inr ([21000, 21000, 21000, 21000, 21000], [''00'', ''01'', ''02'', ''03'', ''04''])"
  "map (address \<circ> fst) (signs (transcript (snd (call_deposit_many_multiacct stub_chain
       default_config deposit_contract ''deposit'' leaf_args two_accounts 5 fresh))))
     = [''0xA0'', ''0xA1'', ''0xA0'', ''0xA1'', ''0xA0'']"
  by (simp_all add: stub_simps hex_def hex_byte_def digit_char_def)

text \<open>
  The end-to-end scenario on the stub chain: the hypotheses hold there, the five gas
  values are 21000 and the signers alternate.
\<close>

theorem pipeliner_round_robin_witness:
  "answers stub_chain \<and> length two_accounts = 2 \<and>
   fst (call_deposit_many_multiacct stub_chain default_config
       deposit_contract ''deposit'' leaf_args two_accounts 5 fresh)
     = Inr ([21000, 21000, 21000, 21000, 21000], [''00'', ''01'', ''02'', ''03'', ''04'']) \<and>
   map fst (signs (transcript (snd (call_deposit_many_multiacct stub_chain
       default_config deposit_contract ''deposit'' leaf_args two_accounts 5 fresh))))
     = [two_accounts ! 0, two_accounts ! 1, two_accounts ! 0, two_accounts ! 1, two_accounts ! 0]"
proof -
  let ?run = "call_deposit_many_multiacct stub_chain default_config
       deposit_contract ''deposit'' leaf_args two_accounts 5 fresh"
  have run: "?run = (fst ?run, snd ?run)" by simp
  have ev: "transcript (snd ?run) = transcript fresh @ transcript (snd ?run)"
    by (simp add: fresh_def)
  have g: "\<forall>q. answered stub_chain q \<longrightarrow> gasUsed (snd q) = 21000"
    by (auto simp: answered_def stub_chain_def)
  have two: "length two_accounts = 2" by (simp add: two_accounts_def)
  from pipeliner_round_robin [OF run ev] stub_chain_answers g two
  have "map fst (signs (transcript (snd ?run)))
     = [two_accounts ! 0, two_accounts ! 1, two_accounts ! 0, two_accounts ! 1, two_accounts ! 0]"
    by blast
  with stub_chain_answers two stub_run5(1) show ?thesis by blast
qed

lemma with_status_fields [simp]:
  "get_transaction_count (with_status g lib) = get_transaction_count lib"
  "build_transaction (with_status g lib) = build_transaction lib"
  "send_raw_transaction (with_status g lib) = send_raw_transaction lib"
  "sign_transaction (with_status g lib) = sign_transaction lib"
  "get_function (with_status g lib) = get_function lib"
  "apply_function (with_status g lib) = apply_function lib"
  "to_wei (with_status g lib) = to_wei lib"
  by (simp_all add: with_status_def)

lemma query_base_nonces_with_status:
  "query_base_nonces (with_status g lib) accts m s = query_base_nonces lib accts m s"
proof (induction accts arbitrary: m s)
  case Nil
  show ?case by simp
next
  case (Cons acct accts)
  have "rpc_get_transaction_count (with_status g lib) (address acct) s
      = rpc_get_transaction_count lib (address acct) s"
    by (simp add: rpc_get_transaction_count_def)
  then show ?case unfolding query_base_nonces.simps Cons.IH by (rule arg_cong)
qed

lemma sign_and_send_step_with_status:
  "sign_and_send_step (with_status g lib) cfg c name af accounts i loc s
     = sign_and_send_step lib cfg c name af accounts i loc s"
  unfolding sign_and_send_step_def rpc_build_transaction_def acct_sign_transaction_def
    rpc_send_raw_transaction_def with_status_fields ..

lemma sign_and_send_with_status:
  "sign_and_send (with_status g lib) cfg c name af accounts is loc s
     = sign_and_send lib cfg c name af accounts is loc s"
  by (induction "is" arbitrary: loc s)
    (simp_all add: sign_and_send_step_with_status split: prod.splits sum.splits)

lemma rpc_wait_with_status:
  assumes "world sa = world sb"
  shows "(case wait_for_transaction_receipt lib (world sb) h of
            (Inl e, w') \<Rightarrow>
              (\<exists>sa' sb'. rpc_wait_for_transaction_receipt (with_status g lib) h sa = (Inl e, sa')
                 \<and> rpc_wait_for_transaction_receipt lib h sb = (Inl e, sb')
                 \<and> world sa' = world sb')
          | (Inr rc, w') \<Rightarrow>
              (\<exists>sa' sb'. rpc_wait_for_transaction_receipt (with_status g lib) h sa
                   = (Inr (rc\<lparr>status := g rc\<rparr>), sa')
                 \<and> rpc_wait_for_transaction_receipt lib h sb = (Inr rc, sb')
                 \<and> world sa' = world sb'))"
  using assms
  by (simp add: rpc_wait_for_transaction_receipt_def with_status_def split: prod.splits sum.splits)

lemma collect_receipts_with_status:
  assumes "world sa = world sb"
  shows "observe_collect (collect_receipts (with_status g lib) hs gs sa)
           = observe_collect (collect_receipts lib hs gs sb)"
  using assms
proof (induction hs arbitrary: gs sa sb)
  case Nil
  then show ?case by (simp add: observe_collect_def)
next
  case (Cons h hs)
  obtain x w' where x: "wait_for_transaction_receipt lib (world sb) h = (x, w')"
    by (cases "wait_for_transaction_receipt lib (world sb) h")
  show ?case
  proof (cases x)
    case (Inl e)
    with rpc_wait_with_status [OF Cons.prems, where lib = lib and h = h and g = g] x show ?thesis
      by (auto simp: observe_collect_def)
  next
    case (Inr rc)
    with rpc_wait_with_status [OF Cons.prems, where lib = lib and h = h and g = g] x obtain sa' sb' where
      "rpc_wait_for_transaction_receipt (with_status g lib) h sa
         = (Inr (rc\<lparr>status := g rc\<rparr>), sa')"
      "rpc_wait_for_transaction_receipt lib h sb = (Inr rc, sb')" "world sa' = world sb'"
      by auto
    with Cons.IH [OF this(3), where gs = "gs @ [gasUsed rc]"] show ?thesis by simp
  qed
qed

lemma call_deposit_many_multiacct_with_status:
  "observe (call_deposit_many_multiacct (with_status g lib) cfg c name af accounts n s)
     = observe (call_deposit_many_multiacct lib cfg c name af accounts n s)"
proof (cases "query_base_nonces lib accounts Map.empty s")
  case (Pair q s0)
  show ?thesis
  proof (cases q)
    case (Inl e)
    with Pair show ?thesis
      by (simp add: call_deposit_many_multiacct_def query_base_nonces_with_status)
  next
    case (Inr bn)
    obtain r1 loc s1 where
      ss: "sign_and_send lib cfg c name af accounts [0..n - 1] (bn, []) s0 = (r1, loc, s1)"
      by (cases "sign_and_send lib cfg c name af accounts [0..n - 1] (bn, []) s0")
    show ?thesis
    proof (cases r1)
      case (Inl e)
      with Pair Inr ss show ?thesis
        by (simp add: call_deposit_many_multiacct_def query_base_nonces_with_status
            sign_and_send_with_status)
    next
      case r1: (Inr u)
      obtain ra ga sa where a: "collect_receipts (with_status g lib) (snd loc) [] s1 = (ra, ga, sa)"
        by (cases "collect_receipts (with_status g lib) (snd loc) [] s1")
      obtain rb gb sb where b: "collect_receipts lib (snd loc) [] s1 = (rb, gb, sb)"
        by (cases "collect_receipts lib (snd loc) [] s1")
      from collect_receipts_with_status [OF refl [of "world s1"], where g = g and lib = lib and hs = "snd loc" and gs = "[]"] a b
      have eq: "ra = rb" "ga = gb" "world sa = world sb"
        by (simp_all add: observe_collect_def)
      have "call_deposit_many_multiacct (with_status g lib) cfg c name af accounts n s
          = (case ra of Inl e \<Rightarrow> (Inl e, sa) | Inr u \<Rightarrow> (Inr (ga, map hex (snd loc)), sa))"
        using Pair Inr ss r1 a
        by (simp add: call_deposit_many_multiacct_def query_base_nonces_with_status
            sign_and_send_with_status split: sum.splits)
      moreover have "call_deposit_many_multiacct lib cfg c name af accounts n s
          = (case rb of Inl e \<Rightarrow> (Inl e, sb) | Inr u \<Rightarrow> (Inr (gb, map hex (snd loc)), sb))"
        using Pair Inr ss r1 b
        by (simp add: call_deposit_many_multiacct_def split: sum.splits)
      ultimately show ?thesis using eq by (simp add: observe_def split: sum.splits)
    qed
  qed
qed

text \<open>
  Claim C6. \<open>call_deposit_many_multiacct\<close> never looks at the status of a receipt:
  whatever status the receipts carry (\<open>with_status g\<close> rewrites it at will), the run
  returns the same lists or raises the same error and leaves the chain in the same
  state; and when it returns, the gas values are the \<open>gasUsed\<close> of the receipts, one for
  each hash sent, in the order sent, each hash waited for once.
\<close>

theorem pipeliner_ignores_status:
  "fst (call_deposit_many_multiacct (with_status g lib) cfg c name af accounts n s)
     = fst (call_deposit_many_multiacct lib cfg c name af accounts n s) \<and>
   world (snd (call_deposit_many_multiacct (with_status g lib) cfg c name af accounts n s))
     = world (snd (call_deposit_many_multiacct lib cfg c name af accounts n s)) \<and>
   (\<forall>gas hexs s' evs.
      call_deposit_many_multiacct lib cfg c name af accounts n s = (Inr (gas, hexs), s') \<and>
      transcript s' = transcript s @ evs \<longrightarrow>
        gas = map (gasUsed \<circ> snd) (waits evs) \<and> map fst (waits evs) = map snd (sends evs))"
proof (intro conjI allI impI)
  from call_deposit_many_multiacct_with_status [of g lib cfg c name af accounts n s]
  show "fst (call_deposit_many_multiacct (with_status g lib) cfg c name af accounts n s)
     = fst (call_deposit_many_multiacct lib cfg c name af accounts n s)"
    and "world (snd (call_deposit_many_multiacct (with_status g lib) cfg c name af accounts n s))
     = world (snd (call_deposit_many_multiacct lib cfg c name af accounts n s))"
    by (simp_all add: observe_def)
next
  fix gas hexs s' evs
  assume a: "call_deposit_many_multiacct lib cfg c name af accounts n s = (Inr (gas, hexs), s') \<and>
      transcript s' = transcript s @ evs"
  then have run: "call_deposit_many_multiacct lib cfg c name af accounts n s = (Inr (gas, hexs), s')"
    and ev: "transcript s' = transcript s @ evs" by blast+
  from pipeline_trace_completed [OF pipeline_events [OF run ev]] obtain hs where
    hs: "gas = map (gasUsed \<circ> snd) (waits evs)" "map snd (sends evs) = hs"
    "map fst (waits evs) = hs" by blast
  from hs(1) show "gas = map (gasUsed \<circ> snd) (waits evs)" .
  from hs(2,3) show "map fst (waits evs) = map snd (sends evs)" by simp
qed

lemma stub_run5_failed_receipts:
  "map (status \<circ> snd) (waits (transcript (snd (call_deposit_many_multiacct
       (with_status (\<lambda>rc. 0) stub_chain) default_config deposit_contract ''deposit''
       leaf_args two_accounts 5 fresh)))) = [0, 0, 0, 0, 0]"
  by (simp add: stub_simps with_status_def)

text \<open>
  On the stub chain with every receipt turned into a failure (status 0), five calls
  still return the five gas values.
\<close>

theorem pipeliner_ignores_status_witness:
  "map (status \<circ> snd) (waits (transcript (snd (call_deposit_many_multiacct
       (with_status (\<lambda>rc. 0) stub_chain) default_config deposit_contract ''deposit''
       leaf_args two_accounts 5 fresh)))) = [0, 0, 0, 0, 0] \<and>
   fst (call_deposit_many_multiacct (with_status (\<lambda>rc. 0) stub_chain) default_config
       deposit_contract ''deposit'' leaf_args two_accounts 5 fresh)
     = Inr ([21000, 21000, 21000, 21000, 21000], [''00'', ''01'', ''02'', ''03'', ''04'']) \<and>
   map (gasUsed \<circ> snd) (waits (transcript (snd (call_deposit_many_multiacct stub_chain
       default_config deposit_contract ''deposit'' leaf_args two_accounts 5 fresh))))
     = [21000, 21000, 21000, 21000, 21000]"
proof -
  let ?run = "call_deposit_many_multiacct stub_chain default_config
       deposit_contract ''deposit'' leaf_args two_accounts 5 fresh"
  note inst = pipeliner_ignores_status [of "\<lambda>rc. 0" stub_chain default_config deposit_contract
      "''deposit''" leaf_args two_accounts 5 fresh]
  from stub_run5(1) have run: "?run = (Inr ([21000, 21000, 21000, 21000, 21000],
      [''00'', ''01'', ''02'', ''03'', ''04'']), snd ?run)"
    by (simp add: prod_eq_iff)
  have ev: "transcript (snd ?run) = transcript fresh @ transcript (snd ?run)"
    by (simp add: fresh_def)
  from inst run ev have "[21000, 21000, 21000, 21000, 21000]
      = map (gasUsed \<circ> snd) (waits (transcript (snd ?run)))" by blast
  moreover from inst stub_run5(1)
  have "fst (call_deposit_many_multiacct (with_status (\<lambda>rc. 0) stub_chain) default_config
       deposit_contract ''deposit'' leaf_args two_accounts 5 fresh)
     = Inr ([21000, 21000, 21000, 21000, 21000], [''00'', ''01'', ''02'', ''03'', ''04''])"
    by simp
  ultimately show ?thesis using stub_run5_failed_receipts by simp
qed













lemma send_and_wait_cases:
  assumes "send_and_wait lib cfg acct fn s = (r, s')"
  obtains
    (failed) e pre where "r = Inl e" "transcript s' = transcript s @ pre" "waits pre = []"
      "library_raised lib e"
  | (returned) x where "r = Inr (x_hash x, x_receipt x)" "exchanged lib cfg acct fn x"
      "transcript s' = transcript s @ exchange_events acct x"
proof (cases r)
  case (Inl e)
  with assms have "\<exists>pre. transcript s' = transcript s @ pre \<and> waits pre = []"
    unfolding send_and_wait_def rpc_get_transaction_count_def rpc_build_transaction_def
      acct_sign_transaction_def rpc_send_raw_transaction_def rpc_wait_for_transaction_receipt_def
    by (auto split: prod.splits sum.splits)
  moreover from Inl assms have "library_raised lib e"
    unfolding send_and_wait_def rpc_get_transaction_count_def rpc_build_transaction_def
      acct_sign_transaction_def rpc_send_raw_transaction_def rpc_wait_for_transaction_receipt_def
      library_raised_def
    by (auto split: prod.splits sum.splits)
  ultimately show ?thesis using Inl failed by blast
next
  case (Inr hr)
  with assms have "\<exists>n price tx raw h rc. hr = (h, rc) \<and>
      to_wei lib (GAS_PRICE_GWEI cfg) ''gwei'' = Inr price \<and>
      sign_transaction lib acct tx = Inr raw \<and>
      (\<exists>w w'. wait_for_transaction_receipt lib w h = (Inr rc, w')) \<and>
      transcript s' = transcript s @
        [GetTransactionCount (address acct) n,
         BuildTransaction fn \<lparr>tx_from = address acct, tx_nonce = n, tx_gasPrice = price\<rparr> tx,
         SignTransaction acct tx raw, SendRawTransaction raw h,
         WaitForTransactionReceipt h rc]"
    unfolding send_and_wait_def rpc_get_transaction_count_def rpc_build_transaction_def
      acct_sign_transaction_def rpc_send_raw_transaction_def rpc_wait_for_transaction_receipt_def
    by (fastforce split: prod.splits sum.splits)
  then obtain n price tx raw h rc w w' where c: "hr = (h, rc)"
    "to_wei lib (GAS_PRICE_GWEI cfg) ''gwei'' = Inr price"
    "sign_transaction lib acct tx = Inr raw"
    "wait_for_transaction_receipt lib w h = (Inr rc, w')"
    "transcript s' = transcript s @
        [GetTransactionCount (address acct) n,
         BuildTransaction fn \<lparr>tx_from = address acct, tx_nonce = n, tx_gasPrice = price\<rparr> tx,
         SignTransaction acct tx raw, SendRawTransaction raw h,
         WaitForTransactionReceipt h rc]"
    by blast
  let ?x = "\<lparr>x_count = n, x_call = fn,
          x_params = \<lparr>tx_from = address acct, tx_nonce = n, tx_gasPrice = price\<rparr>,
          x_tx = tx, x_raw = raw, x_hash = h, x_receipt = rc\<rparr>"
  have f1: "exchanged lib cfg acct fn ?x"
    using c(2,3,4) by (auto simp: exchanged_def answered_def)
  have f2: "transcript s' = transcript s @ exchange_events acct ?x"
    using c(5) by (simp add: exchange_events_def)
  have f3: "r = Inr (x_hash ?x, x_receipt ?x)" using Inr c(1) by simp
  show ?thesis by (rule returned [OF f3 f1 f2])
qed

lemma waits_exchange_events [simp]:
  "waits (exchange_events acct x) = [(x_hash x, x_receipt x)]"
  by (simp add: exchange_events_def)

lemma precount_step_cases:
  assumes "precount_step lib cfg c name af acct set_fn k loc s = (r, loc', s')"
  obtains
    (aborted) e pre where "r = Inl e" "loc' = loc" "transcript s' = transcript s @ pre"
      "aborted lib acct k e pre"
  | (completed) cp where "r = Inr ()" "checkpoint lib cfg c name af acct set_fn k cp"
      "transcript s' = transcript s @ checkpoint_events acct cp"
      "loc' = (fst loc @ [row_gas cp], snd loc @ [row_txhash cp])"
proof (cases "apply_function lib set_fn [Uint (2 ^ nat k - 1)]")
  case (Inl e)
  with assms have "r = Inl e" "loc' = loc" "transcript s' = transcript s @ []"
    by (simp_all add: precount_step_def)
  moreover from Inl have "aborted lib acct k e []"
    unfolding aborted_def library_raised_def by auto
  ultimately show ?thesis by (rule aborted)
next
  case set_call: (Inr set_call)
  obtain r1 s1 where sw1: "send_and_wait lib cfg acct set_call s = (r1, s1)"
    by (cases "send_and_wait lib cfg acct set_call s")
  from sw1 show ?thesis
  proof (cases rule: send_and_wait_cases)
    case (failed e pre)
    with assms set_call sw1 have "r = Inl e" "loc' = loc" "transcript s' = transcript s @ pre"
      by (simp_all add: precount_step_def)
    moreover from failed(3,4) have "aborted lib acct k e pre" by (simp add: aborted_def)
    ultimately show ?thesis by (rule aborted)
  next
    case x1: (returned x1)
    note unfold1 = precount_step_def Let_def set_call sw1 x1(1)
    show ?thesis
    proof (cases "status (x_receipt x1) = 1")
      case False
      with assms have a: "r = Inl (RuntimeError (set_failed_message k (2 ^ nat k - 1)))"
        "loc' = loc" "s' = s1"
        by (simp_all add: unfold1)
      from a(3) x1(3) have "transcript s' = transcript s @ exchange_events acct x1" by simp
      note a(1,2) this
      moreover from False have "aborted lib acct k
          (RuntimeError (set_failed_message k (2 ^ nat k - 1))) (exchange_events acct x1)"
        by (auto simp: aborted_def set_receipt_failed_def)
      ultimately show ?thesis by (rule aborted)
    next
      case ok1: True
      have stop: thesis if "r = Inl e" "loc' = loc" "s' = s1" "library_raised lib e" for e
      proof (rule aborted [OF that(1,2)])
        show "transcript s' = transcript s @ exchange_events acct x1"
          using that(3) x1(3) by simp
        show "aborted lib acct k e (exchange_events acct x1)"
          using ok1 that(4) by (simp add: aborted_def)
      qed
      show ?thesis
      proof (cases "get_function lib c name")
        case (Inl e)
        with assms ok1 have "r = Inl e" "loc' = loc" "s' = s1" by (simp_all add: unfold1)
        moreover from Inl have "library_raised lib e" unfolding library_raised_def by auto
        ultimately show ?thesis by (rule stop)
      next
        case f: (Inr f)
        show ?thesis
        proof (cases "apply_function lib f (af k)")
          case (Inl e)
          with assms ok1 f have "r = Inl e" "loc' = loc" "s' = s1" by (simp_all add: unfold1)
          moreover from Inl have "library_raised lib e" unfolding library_raised_def by auto
          ultimately show ?thesis by (rule stop)
        next
          case fn: (Inr fn)
          obtain r2 s2 where sw2: "send_and_wait lib cfg acct fn s1 = (r2, s2)"
            by (cases "send_and_wait lib cfg acct fn s1")
          from sw2 show ?thesis
          proof (cases rule: send_and_wait_cases)
            case (failed e pre)
            with assms ok1 f fn sw2 have a: "r = Inl e" "loc' = loc" "s' = s2"
              by (simp_all add: unfold1)
            from a(3) failed(2) x1(3)
            have b: "transcript s' = transcript s @ (exchange_events acct x1 @ pre)" by simp
            have d: "aborted lib acct k e (exchange_events acct x1 @ pre)"
              using ok1 failed(3,4) by (simp add: aborted_def)
            show ?thesis by (rule aborted [OF a(1,2) b d])
          next
            case x2: (returned x2)
            note unfold2 = unfold1 f fn sw2 x2(1)
            from x2(3) x1(3) have tr: "transcript s2
                = transcript s @ (exchange_events acct x1 @ exchange_events acct x2)" by simp
            show ?thesis
            proof (cases "status (x_receipt x2) = 1")
              case False
              with assms ok1
              have a: "r = Inl (RuntimeError (deposit_failed_message k (2 ^ nat k - 1)))"
                "loc' = loc" "s' = s2"
                by (simp_all add: unfold2)
              from tr a(3) have b: "transcript s'
                = transcript s @ (exchange_events acct x1 @ exchange_events acct x2)" by simp
              have d: "aborted lib acct k
                  (RuntimeError (deposit_failed_message k (2 ^ nat k - 1)))
                  (exchange_events acct x1 @ exchange_events acct x2)"
                using ok1 False by (auto simp: aborted_def deposit_receipt_failed_def)
              show ?thesis by (rule aborted [OF a(1,2) b d])
            next
              case ok2: True
              with assms ok1 have res: "r = Inr ()" "s' = s2"
                "loc' = (fst loc @ [gasUsed (x_receipt x2)], snd loc @ [hex (x_hash x2)])"
                by (simp_all add: unfold2)
              have cp: "checkpoint lib cfg c name af acct set_fn k (x1, x2)"
                using set_call x1(2) ok1 f fn x2(2) ok2
                by (auto simp: checkpoint_def exchanged_def)
              show ?thesis
              proof (rule completed [OF res(1) cp])
                show "transcript s' = transcript s @ checkpoint_events acct (x1, x2)"
                  using tr res(2) by (simp add: checkpoint_events_def)
                show "loc' = (fst loc @ [row_gas (x1, x2)], snd loc @ [row_txhash (x1, x2)])"
                  using res(3) by (simp add: row_gas_def row_txhash_def)
              qed
            qed
          qed
        qed
      qed
    qed
  qed
qed

lemma stepper_trace_Nil:
  "stepper_trace lib cfg c name af acct set_fn [] (Inr ()) ([], []) []"
  unfolding stepper_trace_def
  by (rule exI [of _ "[]"], rule exI [of _ "[]"]) simp

lemma stepper_trace_stop:
  assumes "aborted lib acct k e pre"
  shows "stepper_trace lib cfg c name af acct set_fn (k # ks) (Inl e) ([], []) pre"
  unfolding stepper_trace_def
  by (rule exI [of _ "[]"], rule exI [of _ pre]) (simp add: assms)

lemma stepper_traceE:
  assumes "stepper_trace lib cfg c name af acct set_fn ks r rows evs"
  obtains (finished) cps where "r = Inr ()"
      "evs = concat (map (checkpoint_events acct) cps)"
      "list_all2 (checkpoint lib cfg c name af acct set_fn) ks cps"
      "rows = (map row_gas cps, map row_txhash cps)"
  | (stopped) cps pre e where "r = Inl e" "length cps < length ks"
      "evs = concat (map (checkpoint_events acct) cps) @ pre"
      "list_all2 (checkpoint lib cfg c name af acct set_fn) (take (length cps) ks) cps"
      "rows = (map row_gas cps, map row_txhash cps)"
      "aborted lib acct (ks ! length cps) e pre"
proof -
  from assms obtain cps pre where a:
    "evs = concat (map (checkpoint_events acct) cps) @ pre"
    "list_all2 (checkpoint lib cfg c name af acct set_fn) (take (length cps) ks) cps"
    "rows = (map row_gas cps, map row_txhash cps)"
    "(r = Inr () \<and> length cps = length ks \<and> pre = []) \<or>
         (\<exists>e. r = Inl e \<and> length cps < length ks \<and> aborted lib acct (ks ! length cps) e pre)"
    unfolding stepper_trace_def by (elim exE conjE)
  from a(4) show thesis
  proof
    assume b: "r = Inr () \<and> length cps = length ks \<and> pre = []"
    with a(1,2) have "evs = concat (map (checkpoint_events acct) cps)"
      "list_all2 (checkpoint lib cfg c name af acct set_fn) ks cps" by simp_all
    with b a(3) show thesis by (intro finished [of cps]) simp_all
  next
    assume "\<exists>e. r = Inl e \<and> length cps < length ks \<and> aborted lib acct (ks ! length cps) e pre"
    then obtain e where "r = Inl e" "length cps < length ks"
      "aborted lib acct (ks ! length cps) e pre" by (elim exE conjE)
    then show thesis using a(1,2,3) by (intro stopped [of e cps pre])
  qed
qed

lemma stepper_trace_Cons:
  assumes cp: "checkpoint lib cfg c name af acct set_fn k cp"
    and tr: "stepper_trace lib cfg c name af acct set_fn ks r rows evs"
  shows "stepper_trace lib cfg c name af acct set_fn (k # ks) r
           (row_gas cp # fst rows, row_txhash cp # snd rows) (checkpoint_events acct cp @ evs)"
  using tr
proof (cases rule: stepper_traceE)
  case (finished cps)
  show ?thesis
    unfolding stepper_trace_def
    by (rule exI [of _ "cp # cps"], rule exI [of _ "[]"])
      (use finished cp in \<open>simp add: list_all2_lengthD [symmetric]\<close>)
next
  case (stopped cps pre e)
  show ?thesis
    unfolding stepper_trace_def
    by (rule exI [of _ "cp # cps"], rule exI [of _ pre]) (use stopped cp in simp)
qed

lemma precount_loop_Cons_cases:
  assumes "precount_loop lib cfg c name af acct set_fn (k # ks) loc s = (r, loc', s')"
  obtains
    (stop) e where "precount_step lib cfg c name af acct set_fn k loc s = (Inl e, loc', s')"
      "r = Inl e"
  | (continue) loc1 s1 where
      "precount_step lib cfg c name af acct set_fn k loc s = (Inr (), loc1, s1)"
      "precount_loop lib cfg c name af acct set_fn ks loc1 s1 = (r, loc', s')"
  using assms by (auto split: sum.splits prod.splits)

lemma precount_loop_trace:
  assumes "precount_loop lib cfg c name af acct set_fn ks loc s = (r, loc', s')"
  shows "\<exists>evs rows. transcript s' = transcript s @ evs \<and>
     loc' = (fst loc @ fst rows, snd loc @ snd rows) \<and>
     stepper_trace lib cfg c name af acct set_fn ks r rows evs"
  using assms
proof (induction ks arbitrary: loc s)
  case Nil
  then have "r = Inr ()" "loc' = loc" "s' = s" by simp_all
  then have "transcript s' = transcript s @ [] \<and>
     loc' = (fst loc @ fst ([] :: int list, [] :: string list),
             snd loc @ snd ([] :: int list, [] :: string list)) \<and>
     stepper_trace lib cfg c name af acct set_fn [] r ([], []) []"
    by (simp add: stepper_trace_Nil)
  then show ?case by blast
next
  case (Cons k ks)
  from Cons.prems show ?case
  proof (cases rule: precount_loop_Cons_cases)
    case (stop e)
    from stop(1) show ?thesis
    proof (cases rule: precount_step_cases)
      case (aborted e' pre)
      from aborted(1) have e: "e' = e" by simp
      from aborted(4) have "stepper_trace lib cfg c name af acct set_fn (k # ks) (Inl e) ([], []) pre"
        unfolding e by (rule stepper_trace_stop)
      with aborted(2,3) stop(2) have "transcript s' = transcript s @ pre \<and>
         loc' = (fst loc @ fst ([] :: int list, [] :: string list),
                 snd loc @ snd ([] :: int list, [] :: string list)) \<and>
         stepper_trace lib cfg c name af acct set_fn (k # ks) r ([], []) pre"
        by simp
      then show ?thesis by blast
    next
      case (completed cp)
      then show ?thesis by simp
    qed
  next
    case (continue loc1 s1)
    from Cons.IH [OF continue(2)] obtain evs rows where ih:
      "transcript s' = transcript s1 @ evs"
      "loc' = (fst loc1 @ fst rows, snd loc1 @ snd rows)"
      "stepper_trace lib cfg c name af acct set_fn ks r rows evs"
      by (elim exE conjE)
    from continue(1) show ?thesis
    proof (cases rule: precount_step_cases)
      case (aborted e pre)
      then show ?thesis by simp
    next
      case (completed cp)
      let ?rows = "(row_gas cp # fst rows, row_txhash cp # snd rows)"
      have "transcript s' = transcript s @ (checkpoint_events acct cp @ evs)"
        using ih(1) completed(3) by simp
      moreover have "loc' = (fst loc @ fst ?rows, snd loc @ snd ?rows)"
        using ih(2) completed(4) by simp
      moreover note stepper_trace_Cons [OF completed(2) ih(3)]
      ultimately show ?thesis by blast
    qed
  qed
qed

lemma checkpoint_receipts_ok:
  assumes "list_all2 (checkpoint lib cfg c name af acct set_fn) ks cps"
  shows "list_all (\<lambda>q. status (snd q) = 1) (waits (concat (map (checkpoint_events acct) cps)))"
  using assms
  by (induction rule: list_all2_induct) (simp_all add: checkpoint_def checkpoint_events_def)

lemma take_upto_1:
  assumes "j < length [1..K]"
  shows "take j [1..K] = [1..int j]" "[1..K] ! j = int j + 1"
proof -
  from assms have j: "int j < K" by simp
  show "[1..K] ! j = int j + 1" using j by (simp add: nth_upto)
  show "take j [1..K] = [1..int j]"
  proof (rule nth_equalityI)
    show "length (take j [1..K]) = length [1..int j]" using j by simp
    fix i assume "i < length (take j [1..K])"
    then have "i < j" by simp
    with j show "take j [1..K] ! i = [1..int j] ! i" by (simp add: nth_upto)
  qed
qed

lemma call_deposit_after_precounts_cases:
  assumes "call_deposit_after_precounts lib cfg c name af acct K s = (r, s')"
  obtains
    (no_function) e where "get_function lib c ''setDepositCount'' = Inl e" "r = Inl e" "s' = s"
  | (looped) set_fn r1 loc where "get_function lib c ''setDepositCount'' = Inr set_fn"
      "precount_loop lib cfg c name af acct set_fn [1..K] ([], []) s = (r1, loc, s')"
      "r = (case r1 of Inl e \<Rightarrow> Inl e | Inr u \<Rightarrow> Inr loc)"
  using assms unfolding call_deposit_after_precounts_def
  by (auto split: sum.splits prod.splits)

lemma upto_from_1: "[1..2] = [1, (2::int)]" "[1..3] = [1, 2, (3::int)]"
  by (simp_all add: upto.simps)

lemmas stepper_simps = call_deposit_after_precounts_def precount_step_def send_and_wait_def
  rpc_get_transaction_count_def rpc_build_transaction_def acct_sign_transaction_def
  rpc_send_raw_transaction_def rpc_wait_for_transaction_receipt_def
  stub_chain_def anvil_account_def default_config_def deposit_contract_def leaf_args_def
  fresh_def Let_def upto_from_1 hex_def hex_byte_def digit_char_def
  set_failed_message_def deposit_failed_message_def str_int_def

lemma stub_stepper3:
  "fst (call_deposit_after_precounts stub_chain default_config deposit_contract ''deposit''
      leaf_args anvil_account 3 fresh) = Inr ([21000, 21000, 21000], [''01'', ''03'', ''05''])"
  by (simp add: stepper_simps)

lemma flaky_stepper3:
  "fst (call_deposit_after_precounts flaky_chain default_config deposit_contract ''deposit''
      leaf_args anvil_account 3 fresh)
     = Inl (RuntimeError ''deposit failed for k=2, new_count=3. Receipt status=0'')"
  "waits (transcript (snd (call_deposit_after_precounts flaky_chain default_config
      deposit_contract ''deposit'' leaf_args anvil_account 3 fresh)))
     = [([0], \<lparr>gasUsed = 21000, status = 1, contractAddress = []\<rparr>),
        ([1], \<lparr>gasUsed = 21000, status = 1, contractAddress = []\<rparr>),
        ([2], \<lparr>gasUsed = 21000, status = 1, contractAddress = []\<rparr>),
        ([3], \<lparr>gasUsed = 21000, status = 0, contractAddress = []\<rparr>)]"
  "fst (snd (precount_loop flaky_chain default_config deposit_contract ''deposit'' leaf_args
      anvil_account \<lparr>fn_contract = deposit_contract, fn_name = ''setDepositCount''\<rparr> [1..3]
      ([], []) fresh)) = ([21000], [''01''])"
  by (simp_all add: stepper_simps flaky_chain_def)

lemma result_rows_checkpoints:
  assumes "length cps = nat K"
  shows "result_rows (map row_gas cps) (map row_txhash cps)
     = Inr (map (\<lambda>(k, cp). (k - 1, row_gas cp, row_txhash cp)) (zip [1..K] cps))"
proof -
  have "map (\<lambda>i. (int i, map row_gas cps ! i, map row_txhash cps ! i)) [0..<length cps]
      = map (\<lambda>(k, cp). (k - 1, row_gas cp, row_txhash cp)) (zip [1..K] cps)"
  proof (rule nth_equalityI)
    show "length (map (\<lambda>i. (int i, map row_gas cps ! i, map row_txhash cps ! i)) [0..<length cps])
        = length (map (\<lambda>(k, cp). (k - 1, row_gas cp, row_txhash cp)) (zip [1..K] cps))"
      using assms by simp
    fix i
    assume "i < length (map (\<lambda>i. (int i, map row_gas cps ! i, map row_txhash cps ! i))
                 [0..<length cps])"
    then have i: "i < length cps" by simp
    with assms have "int i < K" by simp
    with i assms show "map (\<lambda>i. (int i, map row_gas cps ! i, map row_txhash cps ! i))
          [0..<length cps] ! i
        = map (\<lambda>(k, cp). (k - 1, row_gas cp, row_txhash cp)) (zip [1..K] cps) ! i"
      by (simp add: nth_upto)
  qed
  then show ?thesis by (simp add: result_rows_def)
qed

lemma aborted_cases:
  assumes "aborted lib acct k e pre"
  obtains (library) "library_raised lib e" "list_all (\<lambda>q. status (snd q) = 1) (waits pre)"
  | (set_failed) "set_receipt_failed acct k e pre"
  | (deposit_failed) "deposit_receipt_failed acct k e pre"
  using assms unfolding aborted_def by blast

text \<open>
  Claim C4, as written, says that the Precount Stepper with \<open>K\<close> checkpoints produces
  exactly \<open>K\<close> rows. It produces none when a receipt has a status other than 1: on a
  chain where every transaction reverts, the run with \<open>K = 2\<close> raises at the first
  \<^verbatim>\<open>setDepositCount\<close>.
\<close>

theorem stepper_reverting_counterexample:
  "fst (call_deposit_after_precounts reverting_chain default_config deposit_contract ''deposit''
      leaf_args anvil_account 2 fresh)
     = Inl (RuntimeError ''setDepositCount failed for k=1, new_count=1.'')"
  by (simp add: stepper_simps reverting_chain_def with_status_def)

text \<open>
  Claim C4, as amended. Every run of \<open>call_deposit_after_precounts\<close> with
  \<open>max_power = K\<close> ends in one of two ways. Either it returns, and then it went through
  exactly \<open>K\<close> checkpoints, for \<open>k = 1, \<dots>, K\<close> in this order: at checkpoint \<open>k\<close> the call
  sent first is \<^verbatim>\<open>setDepositCount\<close> applied to \<open>2 ^ k - 1\<close>, the call sent next is the
  measured one with the arguments of index \<open>k\<close>, both receipts have status 1, and the
  \<open>k\<close>-th entries of the two lists returned are the \<open>gasUsed\<close> of the second receipt and
  the hexadecimal form of the second hash; the rows \<^verbatim>\<open>main\<close> builds from the lists are
  \<open>K\<close> rows, the one of checkpoint \<open>k\<close> at index \<open>k - 1\<close>. Or it raises: the error of a
  library call that raised, or the \<^verbatim>\<open>RuntimeError\<close> of a checkpoint \<open>k \<le> K\<close> whose last
  receipt has a status other than 1. Nothing is assumed of the library.
\<close>

theorem stepper_rows:
  assumes run: "call_deposit_after_precounts lib cfg c name af acct K s = (r, s')"
    and ev: "transcript s' = transcript s @ evs"
  shows "(\<exists>set_fn cps gas hexs. r = Inr (gas, hexs) \<and>
       get_function lib c ''setDepositCount'' = Inr set_fn \<and>
       length cps = nat K \<and>
       list_all2 (checkpoint lib cfg c name af acct set_fn) [1..K] cps \<and>
       evs = concat (map (checkpoint_events acct) cps) \<and>
       gas = map row_gas cps \<and> hexs = map row_txhash cps \<and>
       result_rows gas hexs
         = Inr (map (\<lambda>(k, cp). (k - 1, row_gas cp, row_txhash cp)) (zip [1..K] cps))) \<or>
     (\<exists>e. r = Inl e \<and>
       (library_raised lib e \<or>
        (\<exists>k cps pre. 1 \<le> k \<and> k \<le> K \<and> length cps = nat (k - 1) \<and>
           evs = concat (map (checkpoint_events acct) cps) @ pre \<and>
           (set_receipt_failed acct k e pre \<or> deposit_receipt_failed acct k e pre))))"
  using run
proof (cases rule: call_deposit_after_precounts_cases)
  case (no_function e)
  from no_function(1) have "library_raised lib e" unfolding library_raised_def by blast
  with no_function(2) show ?thesis by simp
next
  case (looped set_fn r1 loc)
  from precount_loop_trace [OF looped(2)] obtain evs' rows where tr:
    "transcript s' = transcript s @ evs'"
    "loc = (fst ([] :: int list, [] :: string list) @ fst rows,
            snd ([] :: int list, [] :: string list) @ snd rows)"
    "stepper_trace lib cfg c name af acct set_fn [1..K] r1 rows evs'"
    by (elim exE conjE)
  from tr(1) ev have evs: "evs' = evs" by simp
  from tr(2) have loc: "loc = rows" by simp
  from tr(3) show ?thesis
  proof (cases rule: stepper_traceE)
    case (finished cps)
    from finished(3) have len: "length cps = nat K" by (simp add: list_all2_lengthD [symmetric])
    from finished(1,4) looped(3) loc
    have r: "r = Inr (map row_gas cps, map row_txhash cps)" by simp
    have "\<exists>set_fn cps gas hexs. r = Inr (gas, hexs) \<and>
       get_function lib c ''setDepositCount'' = Inr set_fn \<and>
       length cps = nat K \<and>
       list_all2 (checkpoint lib cfg c name af acct set_fn) [1..K] cps \<and>
       evs = concat (map (checkpoint_events acct) cps) \<and>
       gas = map row_gas cps \<and> hexs = map row_txhash cps \<and>
       result_rows gas hexs
         = Inr (map (\<lambda>(k, cp). (k - 1, row_gas cp, row_txhash cp)) (zip [1..K] cps))"
      apply (rule exI [of _ set_fn])
      apply (rule exI [of _ cps])
      apply (rule exI [of _ "map row_gas cps"])
      apply (rule exI [of _ "map row_txhash cps"])
      apply (intro conjI)
             apply (rule r)
            apply (rule looped(1))
           apply (rule len)
          apply (rule finished(3))
         apply (simp add: finished(2) flip: evs)
        apply (rule refl)
       apply (rule refl)
      apply (rule result_rows_checkpoints [OF len])
      done
    then show ?thesis ..
  next
    case (stopped cps pre e)
    from stopped(1) looped(3) have r: "r = Inl e" by simp
    let ?k = "int (length cps) + 1"
    from take_upto_1 [OF stopped(2)] have k: "[1..K] ! length cps = ?k" by simp
    from stopped(2) have bounds: "1 \<le> ?k" "?k \<le> K" "length cps = nat (?k - 1)" by simp_all
    from stopped(3) evs have e: "evs = concat (map (checkpoint_events acct) cps) @ pre" by simp
    from stopped(6) have "aborted lib acct ?k e pre" unfolding k .
    then show ?thesis
    proof (cases rule: aborted_cases)
      case library
      with r show ?thesis by simp
    next
      case set_failed
      with bounds e have "\<exists>k cps pre. 1 \<le> k \<and> k \<le> K \<and> length cps = nat (k - 1) \<and>
           evs = concat (map (checkpoint_events acct) cps) @ pre \<and>
           (set_receipt_failed acct k e pre \<or> deposit_receipt_failed acct k e pre)"
        by (intro exI [of _ ?k] exI [of _ cps] exI [of _ pre]) simp
      with r show ?thesis by simp
    next
      case deposit_failed
      with bounds e have "\<exists>k cps pre. 1 \<le> k \<and> k \<le> K \<and> length cps = nat (k - 1) \<and>
           evs = concat (map (checkpoint_events acct) cps) @ pre \<and>
           (set_receipt_failed acct k e pre \<or> deposit_receipt_failed acct k e pre)"
        by (intro exI [of _ ?k] exI [of _ cps] exI [of _ pre]) simp
      with r show ?thesis by simp
    qed
  qed
qed

text \<open>
  Three checkpoints on the stub chain: the run returns, so the lists have three entries,
  and the rows carry the indices 0, 1, 2.
\<close>

theorem stepper_rows_witness:
  "\<exists>gas hexs. fst (call_deposit_after_precounts stub_chain default_config deposit_contract
        ''deposit'' leaf_args anvil_account 3 fresh) = Inr (gas, hexs) \<and>
     length gas = 3 \<and> length hexs = 3 \<and>
     result_rows gas hexs = Inr [(0, 21000, ''01''), (1, 21000, ''03''), (2, 21000, ''05'')]"
proof -
  let ?run = "call_deposit_after_precounts stub_chain default_config deposit_contract
        ''deposit'' leaf_args anvil_account 3 fresh"
  have run: "?run = (fst ?run, snd ?run)" by simp
  have ev: "transcript (snd ?run) = transcript fresh @ transcript (snd ?run)"
    by (simp add: fresh_def)
  have ok: "fst ?run \<noteq> Inl e" for e by (simp add: stub_stepper3)
  from stepper_rows [OF run ev] ok
  obtain gas hexs cps where a: "fst ?run = Inr (gas, hexs)" "length cps = nat 3"
    "gas = map row_gas cps" "hexs = map row_txhash cps"
    by blast
  from a(2,3,4) have "length gas = 3" "length hexs = 3" by simp_all
  moreover from a(1) have "gas = [21000, 21000, 21000]" "hexs = [''01'', ''03'', ''05'']"
    by (simp_all add: stub_stepper3)
  then have "result_rows gas hexs
      = Inr [(0, 21000, ''01''), (1, 21000, ''03''), (2, 21000, ''05'')]"
    by (simp add: result_rows_def upt_rec)
  ultimately show ?thesis using a(1) by blast
qed

lemma set_receipt_failed_last:
  assumes "set_receipt_failed acct k e pre"
  shows "\<exists>ws q. waits pre = ws @ [q] \<and> list_all (\<lambda>q. status (snd q) = 1) ws \<and>
     status (snd q) \<noteq> 1 \<and> (\<exists>es. pre = es @ [WaitForTransactionReceipt (fst q) (snd q)])"
proof -
  from assms obtain x1 where x: "pre = exchange_events acct x1" "status (x_receipt x1) \<noteq> 1"
    unfolding set_receipt_failed_def by blast
  show ?thesis
    apply (rule exI [of _ "[]"])
    apply (rule exI [of _ "(x_hash x1, x_receipt x1)"])
    using x by (simp add: exchange_events_def)
qed

lemma deposit_receipt_failed_last:
  assumes "deposit_receipt_failed acct k e pre"
  shows "\<exists>ws q. waits pre = ws @ [q] \<and> list_all (\<lambda>q. status (snd q) = 1) ws \<and>
     status (snd q) \<noteq> 1 \<and> (\<exists>es. pre = es @ [WaitForTransactionReceipt (fst q) (snd q)])"
proof -
  from assms obtain x1 x2 where x: "pre = exchange_events acct x1 @ exchange_events acct x2"
    "status (x_receipt x1) = 1" "status (x_receipt x2) \<noteq> 1"
    unfolding deposit_receipt_failed_def by blast
  show ?thesis
    apply (rule exI [of _ "[(x_hash x1, x_receipt x1)]"])
    apply (rule exI [of _ "(x_hash x2, x_receipt x2)"])
    using x by (simp add: exchange_events_def)
qed

text \<open>
  Claim C5. Take any run of \<open>call_deposit_after_precounts\<close> in which some receipt has a
  status other than 1. Then that receipt belongs to a checkpoint \<open>k\<close> with
  \<open>1 \<le> k \<le> max_power\<close>; the run raises the \<^verbatim>\<open>RuntimeError\<close> of that checkpoint, for the
  \<^verbatim>\<open>setDepositCount\<close> transaction or for the measured one; it raises at once, the wait for
  that receipt being the last library call of the run and every receipt before it having
  status 1; and when the loop raises, \<open>gas_list\<close> and \<open>tx_hashes\<close> hold the rows of the
  checkpoints \<open>1, \<dots>, k - 1\<close>, which all completed, and nothing else. Nothing is assumed of
  the library.
\<close>

theorem stepper_fails_fast:
  assumes run: "call_deposit_after_precounts lib cfg c name af acct K s = (r, s')"
    and ev: "transcript s' = transcript s @ evs"
    and bad: "\<not> list_all (\<lambda>q. status (snd q) = 1) (waits evs)"
  shows "\<exists>set_fn k cps pre e loc.
     get_function lib c ''setDepositCount'' = Inr set_fn \<and>
     precount_loop lib cfg c name af acct set_fn [1..K] ([], []) s = (Inl e, loc, s') \<and>
     r = Inl e \<and> 1 \<le> k \<and> k \<le> K \<and>
     (e = RuntimeError (set_failed_message k (2 ^ nat k - 1)) \<and>
        set_receipt_failed acct k e pre \<or>
      e = RuntimeError (deposit_failed_message k (2 ^ nat k - 1)) \<and>
        deposit_receipt_failed acct k e pre) \<and>
     list_all2 (checkpoint lib cfg c name af acct set_fn) [1..k - 1] cps \<and>
     loc = (map row_gas cps, map row_txhash cps) \<and> length (fst loc) = nat (k - 1) \<and>
     evs = concat (map (checkpoint_events acct) cps) @ pre \<and>
     (\<exists>es ws h rc. evs = es @ [WaitForTransactionReceipt h rc] \<and> status rc \<noteq> 1 \<and>
        waits evs = ws @ [(h, rc)] \<and> list_all (\<lambda>q. status (snd q) = 1) ws)"
  using run
proof (cases rule: call_deposit_after_precounts_cases)
  case (no_function e)
  from no_function(3) ev have "evs = []" by simp
  with bad show ?thesis by simp
next
  case (looped set_fn r1 loc)
  from precount_loop_trace [OF looped(2)] obtain evs' rows where tr:
    "transcript s' = transcript s @ evs'"
    "loc = (fst ([] :: int list, [] :: string list) @ fst rows,
            snd ([] :: int list, [] :: string list) @ snd rows)"
    "stepper_trace lib cfg c name af acct set_fn [1..K] r1 rows evs'"
    by (elim exE conjE)
  from tr(1) ev have evs: "evs' = evs" by simp
  from tr(2) have loc: "loc = rows" by simp
  from tr(3) show ?thesis
  proof (cases rule: stepper_traceE)
    case (finished cps)
    from checkpoint_receipts_ok [OF finished(3)] finished(2) evs bad show ?thesis by simp
  next
    case (stopped cps pre e)
    from stopped(1) looped(3) have r: "r = Inl e" by simp
    let ?k = "int (length cps) + 1"
    from take_upto_1 [OF stopped(2)] have k: "[1..K] ! length cps = ?k"
      and tk: "take (length cps) [1..K] = [1..?k - 1]" by simp_all
    from stopped(2) have bounds: "1 \<le> ?k" "?k \<le> K" by simp_all
    from stopped(3) evs have e: "evs = concat (map (checkpoint_events acct) cps) @ pre" by simp
    from stopped(4) have cps: "list_all2 (checkpoint lib cfg c name af acct set_fn) [1..?k - 1] cps"
      unfolding tk .
    from checkpoint_receipts_ok [OF cps]
    have good: "list_all (\<lambda>q. status (snd q) = 1)
        (waits (concat (map (checkpoint_events acct) cps)))" .
    from stopped(5) loc have rows: "loc = (map row_gas cps, map row_txhash cps)"
      "length (fst loc) = nat (?k - 1)" by simp_all
    from looped(2) stopped(1) have loop:
      "precount_loop lib cfg c name af acct set_fn [1..K] ([], []) s = (Inl e, loc, s')" by simp
    from stopped(6) have ab: "aborted lib acct ?k e pre" unfolding k .
    have last: "\<exists>es ws h rc. evs = es @ [WaitForTransactionReceipt h rc] \<and> status rc \<noteq> 1 \<and>
        waits evs = ws @ [(h, rc)] \<and> list_all (\<lambda>q. status (snd q) = 1) ws"
      if "\<exists>ws q. waits pre = ws @ [q] \<and> list_all (\<lambda>q. status (snd q) = 1) ws \<and>
         status (snd q) \<noteq> 1 \<and> (\<exists>es. pre = es @ [WaitForTransactionReceipt (fst q) (snd q)])"
    proof -
      from that obtain ws q es where w: "waits pre = ws @ [q]"
        "list_all (\<lambda>q. status (snd q) = 1) ws" "status (snd q) \<noteq> 1"
        "pre = es @ [WaitForTransactionReceipt (fst q) (snd q)]" by blast
      show ?thesis
        apply (rule exI [of _ "concat (map (checkpoint_events acct) cps) @ es"])
        apply (rule exI [of _ "waits (concat (map (checkpoint_events acct) cps)) @ ws"])
        apply (rule exI [of _ "fst q"])
        apply (rule exI [of _ "snd q"])
        using w good e by simp
    qed
    have fin: ?thesis
      if "e = RuntimeError (set_failed_message ?k (2 ^ nat ?k - 1)) \<and>
            set_receipt_failed acct ?k e pre \<or>
          e = RuntimeError (deposit_failed_message ?k (2 ^ nat ?k - 1)) \<and>
            deposit_receipt_failed acct ?k e pre"
        and "\<exists>es ws h rc. evs = es @ [WaitForTransactionReceipt h rc] \<and> status rc \<noteq> 1 \<and>
          waits evs = ws @ [(h, rc)] \<and> list_all (\<lambda>q. status (snd q) = 1) ws"
      apply (rule exI [of _ set_fn])
      apply (rule exI [of _ ?k])
      apply (rule exI [of _ cps])
      apply (rule exI [of _ pre])
      apply (rule exI [of _ e])
      apply (rule exI [of _ loc])
      apply (intro conjI)
                apply (rule looped(1))
               apply (rule loop)
              apply (rule r)
             apply (rule bounds(1))
            apply (rule bounds(2))
           apply (rule that(1))
          apply (rule cps)
         apply (rule rows(1))
        apply (rule rows(2))
       apply (rule e)
      apply (rule that(2))
      done
    from ab show ?thesis
    proof (cases rule: aborted_cases)
      case library
      with good e bad show ?thesis by simp
    next
      case set_failed
      then have "e = RuntimeError (set_failed_message ?k (2 ^ nat ?k - 1))"
        unfolding set_receipt_failed_def by blast
      with set_failed have "e = RuntimeError (set_failed_message ?k (2 ^ nat ?k - 1)) \<and>
            set_receipt_failed acct ?k e pre \<or>
          e = RuntimeError (deposit_failed_message ?k (2 ^ nat ?k - 1)) \<and>
            deposit_receipt_failed acct ?k e pre" by blast
      then show ?thesis by (rule fin) (rule last [OF set_receipt_failed_last [OF set_failed]])
    next
      case deposit_failed
      then have "e = RuntimeError (deposit_failed_message ?k (2 ^ nat ?k - 1))"
        unfolding deposit_receipt_failed_def by blast
      with deposit_failed have "e = RuntimeError (set_failed_message ?k (2 ^ nat ?k - 1)) \<and>
            set_receipt_failed acct ?k e pre \<or>
          e = RuntimeError (deposit_failed_message ?k (2 ^ nat ?k - 1)) \<and>
            deposit_receipt_failed acct ?k e pre" by blast
      then show ?thesis
        by (rule fin) (rule last [OF deposit_receipt_failed_last [OF deposit_failed]])
    qed
  qed
qed

text \<open>
  Three checkpoints on a chain where the fourth transaction, the measured one of
  checkpoint 2, reverts: the run raises for \<open>k = 2\<close>, and the loop leaves the one row of
  checkpoint 1.
\<close>

theorem stepper_fails_fast_witness:
  "(\<exists>k. fst (call_deposit_after_precounts flaky_chain default_config deposit_contract ''deposit''
        leaf_args anvil_account 3 fresh)
       = Inl (RuntimeError (deposit_failed_message k (2 ^ nat k - 1))) \<and> 1 \<le> k \<and> k \<le> 3) \<and>
   fst (call_deposit_after_precounts flaky_chain default_config deposit_contract ''deposit''
        leaf_args anvil_account 3 fresh)
     = Inl (RuntimeError ''deposit failed for k=2, new_count=3. Receipt status=0'') \<and>
   fst (snd (precount_loop flaky_chain default_config deposit_contract ''deposit'' leaf_args
      anvil_account \<lparr>fn_contract = deposit_contract, fn_name = ''setDepositCount''\<rparr> [1..3]
      ([], []) fresh)) = ([21000], [''01''])"
proof -
  let ?run = "call_deposit_after_precounts flaky_chain default_config deposit_contract
        ''deposit'' leaf_args anvil_account 3 fresh"
  have run: "?run = (fst ?run, snd ?run)" by simp
  have ev: "transcript (snd ?run) = transcript fresh @ transcript (snd ?run)"
    by (simp add: fresh_def)
  have bad: "\<not> list_all (\<lambda>q. status (snd q) = 1) (waits (transcript (snd ?run)))"
    unfolding flaky_stepper3(2) by simp
  from stepper_fails_fast [OF run ev bad] obtain k e where k: "fst ?run = Inl e" "1 \<le> k" "k \<le> 3"
    "e = RuntimeError (set_failed_message k (2 ^ nat k - 1)) \<or>
     e = RuntimeError (deposit_failed_message k (2 ^ nat k - 1))"
    by blast
  from k(1) flaky_stepper3(1)
  have e: "e = RuntimeError ''deposit failed for k=2, new_count=3. Receipt status=0''" by simp
  have "e \<noteq> RuntimeError (set_failed_message k (2 ^ nat k - 1))"
    unfolding e by (simp add: set_failed_message_def)
  with k(4) have "e = RuntimeError (deposit_failed_message k (2 ^ nat k - 1))" by simp
  with k(1,2,3) have "\<exists>k. fst ?run = Inl (RuntimeError (deposit_failed_message k (2 ^ nat k - 1)))
     \<and> 1 \<le> k \<and> k \<le> 3" by blast
  with flaky_stepper3(1,3) show ?thesis by simp
qed

lemma split_commas_nonempty: "split_commas s \<noteq> []"
  by (induction s) (auto split: list.splits)

lemma split_commas_nocomma: "CHR '','' \<notin> set a \<Longrightarrow> split_commas a = [a]"
  by (induction a) auto

lemma split_commas_append:
  "CHR '','' \<notin> set a \<Longrightarrow> split_commas (a @ CHR '','' # b) = a # split_commas b"
  by (induction a) auto

lemma digit_char_hex: "d < 16 \<Longrightarrow> digit_char d \<in> hex_digits"
  unfolding digit_char_def hex_digits_def by (rule nth_mem) simp

lemma plain_hex_digits: "CHR '','' \<notin> hex_digits" "newline \<notin> hex_digits"
  by (simp_all add: hex_digits_def newline_def)

lemma str_nat_chars: "set (str_nat n) \<subseteq> hex_digits"
proof (induction n rule: str_nat.induct)
  case (1 n)
  show ?case
  proof (cases "n < 10")
    case True
    then have "n < 16" by simp
    from True have "str_nat n = [digit_char n]" by (subst str_nat.simps) (simp del: str_nat.simps)
    with digit_char_hex [OF \<open>n < 16\<close>] show ?thesis by (simp del: str_nat.simps)
  next
    case False
    have "n mod 10 < 16" by (rule less_trans [of _ 10]) simp_all
    from False have "str_nat n = str_nat (n div 10) @ [digit_char (n mod 10)]"
      by (subst str_nat.simps) (simp del: str_nat.simps)
    with digit_char_hex [OF \<open>n mod 10 < 16\<close>] 1 [OF False] show ?thesis
      by (simp del: str_nat.simps)
  qed
qed

lemma str_int_chars: "set (str_int i) \<subseteq> insert CHR ''-'' hex_digits"
proof (cases "i < 0")
  case True
  then have "str_int i = CHR ''-'' # str_nat (nat (- i))" by (simp add: str_int_def del: str_nat.simps)
  with str_nat_chars [of "nat (- i)"] show ?thesis by (simp del: str_nat.simps) blast
next
  case False
  then have "str_int i = str_nat (nat i)" by (simp add: str_int_def del: str_nat.simps)
  with str_nat_chars [of "nat i"] show ?thesis by (simp del: str_nat.simps) blast
qed

lemma hex_byte_chars: "set (hex_byte b) \<subseteq> hex_digits"
proof -
  have "unat b < 2 ^ LENGTH(8)" by (rule unsigned_less)
  then have "unat b < 256" by simp
  then have "unat b div 16 < 16" "unat b mod 16 < 16" by simp_all
  from digit_char_hex [OF this(1)] digit_char_hex [OF this(2)] show ?thesis
    unfolding hex_byte_def by simp
qed

lemma hex_chars: "set (hex bs) \<subseteq> hex_digits"
proof (induction bs)
  case Nil
  show ?case by (simp add: hex_def)
next
  case (Cons b bs)
  have "hex (b # bs) = hex_byte b @ hex bs" by (simp add: hex_def)
  with hex_byte_chars [of b] Cons show ?case by simp
qed

lemma plain_str_int: "CHR '','' \<notin> set (str_int i)" "newline \<notin> set (str_int i)"
proof -
  have "CHR '','' \<notin> insert CHR ''-'' hex_digits" "newline \<notin> insert CHR ''-'' hex_digits"
    using plain_hex_digits by (simp_all add: newline_def)
  with str_int_chars [of i] show "CHR '','' \<notin> set (str_int i)" "newline \<notin> set (str_int i)"
    by blast+
qed

lemma plain_hex: "CHR '','' \<notin> set (hex bs)" "newline \<notin> set (hex bs)"
  using hex_chars [of bs] plain_hex_digits by blast+

lemma benchmark_output_shape:
  assumes "benchmark_output lib cfg out"
  shows "length (snd out) = length (fst out) \<and> (\<exists>hs. snd out = map hex hs)"
proof -
  obtain gas hexs where out: "out = (gas, hexs)" by (cases out)
  from assms consider
    (pipeliner) c name af accounts n s s' where
      "call_deposit_many_multiacct lib cfg c name af accounts n s = (Inr (gas, hexs), s')"
  | (stepper) c name af acct K s s' where
      "call_deposit_after_precounts lib cfg c name af acct K s = (Inr (gas, hexs), s')"
    unfolding benchmark_output_def out by blast
  then have "length hexs = length gas \<and> (\<exists>hs. hexs = map hex hs)"
  proof cases
    case pipeliner
    from pipeline_structure [OF pipeliner] obtain evs where
      tr: "pipeline_trace (requested lib cfg c name af) (answered lib) accounts n
               (Inr (gas, hexs)) evs"
      by blast
    from pipeline_trace_completed [OF tr] obtain hs where hs:
      "hexs = map hex hs" "gas = map (gasUsed \<circ> snd) (waits evs)" "map fst (waits evs) = hs"
      by blast
    from hs(3) have "length (waits evs) = length hs" by (simp flip: length_map [of fst])
    with hs(1,2) show ?thesis by auto
  next
    case stepper
    from stepper show ?thesis
    proof (cases rule: call_deposit_after_precounts_cases)
      case (no_function e)
      then show ?thesis by simp
    next
      case (looped set_fn r1 loc)
      from looped(3) have r1: "r1 = Inr ()" and loc: "loc = (gas, hexs)"
        by (cases r1; simp)+
      from precount_loop_trace [OF looped(2)] obtain evs rows where tr:
        "loc = (fst ([] :: int list, [] :: string list) @ fst rows,
                snd ([] :: int list, [] :: string list) @ snd rows)"
        "stepper_trace lib cfg c name af acct set_fn [1..K] r1 rows evs"
        by (elim exE conjE)
      from tr(1) loc have rows: "rows = (gas, hexs)" by simp
      from tr(2) show ?thesis
      proof (cases rule: stepper_traceE)
        case (finished cps)
        from finished(4) rows have g: "gas = map row_gas cps"
          and h: "hexs = map hex (map (\<lambda>cp. x_hash (snd cp)) cps)"
          by (simp_all add: row_txhash_def comp_def)
        from g h have "length hexs = length gas" by simp
        moreover from h have "\<exists>hs. hexs = map hex hs" by (rule exI)
        ultimately show ?thesis by (rule conjI)
      next
        case (stopped cps pre e)
        with r1 show ?thesis by simp
      qed
    qed
  qed
  then show ?thesis by (simp add: out)
qed

lemma csv_fields_row:
  assumes "CHR '','' \<notin> set name" and "CHR '','' \<notin> set txh"
  shows "csv_fields (csv_row name (i, gas, txh)) = [name, str_int i, str_int gas, txh]"
proof -
  have "butlast (csv_row name (i, gas, txh))
      = name @ CHR '','' # (str_int i @ CHR '','' # (str_int gas @ CHR '','' # txh))"
    by (simp add: csv_row_def butlast_append)
  then show ?thesis
    unfolding csv_fields_def
    by (simp add: split_commas_append split_commas_nocomma assms plain_str_int)
qed

lemma csv_row_line:
  assumes "newline \<notin> set name" and "newline \<notin> set txh"
  shows "last (csv_row name (i, gas, txh)) = newline"
    "newline \<notin> set (butlast (csv_row name (i, gas, txh)))"
proof -
  show "last (csv_row name (i, gas, txh)) = newline" by (simp add: csv_row_def)
  have "butlast (csv_row name (i, gas, txh))
      = name @ CHR '','' # (str_int i @ CHR '','' # (str_int gas @ CHR '','' # txh))"
    by (simp add: csv_row_def butlast_append)
  then show "newline \<notin> set (butlast (csv_row name (i, gas, txh)))"
    using assms plain_str_int(2) by (simp add: newline_def)
qed

lemma written_rows:
  assumes name: "CHR '','' \<notin> set name" "newline \<notin> set name"
    and shape: "length hexs = length gas" "hexs = map hex hs"
  shows "\<exists>rows. result_rows gas hexs = Inr rows \<and> length rows = length gas \<and>
     map csv_fields (map (csv_row name) rows) = expected_fields (name, gas, hexs) \<and>
     list_all (\<lambda>l. length (csv_fields l) = 4 \<and> last l = newline \<and>
        newline \<notin> set (butlast l)) (map (csv_row name) rows)"
proof -
  let ?rows = "map (\<lambda>i. (int i, gas ! i, hexs ! i)) [0..<length gas]"
  have plain: "CHR '','' \<notin> set (hexs ! i)" "newline \<notin> set (hexs ! i)" if "i < length gas" for i
    using that shape plain_hex by simp_all
  have r: "result_rows gas hexs = Inr ?rows" using shape(1) by (simp add: result_rows_def)
  have f: "map csv_fields (map (csv_row name) ?rows) = expected_fields (name, gas, hexs)"
    unfolding expected_fields_def using plain(1) name(1) by (simp add: csv_fields_row)
  have l: "list_all (\<lambda>l. length (csv_fields l) = 4 \<and> last l = newline \<and>
        newline \<notin> set (butlast l)) (map (csv_row name) ?rows)"
    unfolding list_all_iff
  proof
    fix l assume "l \<in> set (map (csv_row name) ?rows)"
    then obtain i where i: "i < length gas" "l = csv_row name (int i, gas ! i, hexs ! i)"
      by auto
    from csv_fields_row [OF name(1) plain(1) [OF i(1)]]
      csv_row_line [OF name(2) plain(2) [OF i(1)]]
    show "length (csv_fields l) = 4 \<and> last l = newline \<and> newline \<notin> set (butlast l)"
      unfolding i(2) by simp
  qed
  from r f l show ?thesis by (intro exI [of _ ?rows]) simp
qed

lemma plain_contract_names:
  "CHR '','' \<notin> set ''DepositContract''" "newline \<notin> set ''DepositContract''"
  "CHR '','' \<notin> set ''DepositContractWithProofs''"
  "newline \<notin> set ''DepositContractWithProofs''"
  by (simp_all add: newline_def)

text \<open>
  Claim C8. \<^verbatim>\<open>main\<close> stores, for each of the two contracts, the rows built from the lists
  its benchmark run returned, and \<open>save_csv\<close> writes the header and then one line for
  each stored row. Whatever the two runs returned, every line after the header ends with
  its only newline and has exactly four comma-separated fields: the contract name, the
  index \<open>i\<close>, the \<open>i\<close>-th gas value and the \<open>i\<close>-th transaction identifier, in this order;
  and the number of these lines is the number of results of the two runs together.
\<close>

theorem csv_rows:
  assumes len: "length outs = length CONTRACT_NAMES"
    and outs: "list_all (benchmark_output lib cfg) outs"
  shows "\<exists>all_results rows.
     store_results (zip CONTRACT_NAMES outs) [] = Inr all_results \<and>
     save_csv all_results = csv_header # rows \<and>
     length rows = sum_list (map (\<lambda>out. length (fst out)) outs) \<and>
     map csv_fields rows = concat (map expected_fields (zip CONTRACT_NAMES outs)) \<and>
     list_all (\<lambda>l. length (csv_fields l) = 4 \<and> last l = newline \<and>
        newline \<notin> set (butlast l)) rows"
proof -
  from len obtain o1 o2 where o: "outs = [o1, o2]"
    by (cases outs; cases "tl outs"; simp add: CONTRACT_NAMES_def)
  obtain g1 h1 g2 h2 where p: "o1 = (g1, h1)" "o2 = (g2, h2)" by (cases o1, cases o2)
  from outs o p have b: "benchmark_output lib cfg (g1, h1)" "benchmark_output lib cfg (g2, h2)"
    by simp_all
  from benchmark_output_shape [OF b(1)] obtain hs1 where
    s1: "length h1 = length g1" "h1 = map hex hs1" by auto
  from benchmark_output_shape [OF b(2)] obtain hs2 where
    s2: "length h2 = length g2" "h2 = map hex hs2" by auto
  let ?P = "\<lambda>l. length (csv_fields l) = 4 \<and> last l = newline \<and> newline \<notin> set (butlast l)"
  from written_rows [OF plain_contract_names(1,2) s1] obtain rows1 where r1:
    "result_rows g1 h1 = Inr rows1" "length rows1 = length g1"
    "map csv_fields (map (csv_row ''DepositContract'') rows1)
       = expected_fields (''DepositContract'', g1, h1)"
    "list_all ?P (map (csv_row ''DepositContract'') rows1)"
    by (elim exE conjE)
  from written_rows [OF plain_contract_names(3,4) s2] obtain rows2 where r2:
    "result_rows g2 h2 = Inr rows2" "length rows2 = length g2"
    "map csv_fields (map (csv_row ''DepositContractWithProofs'') rows2)
       = expected_fields (''DepositContractWithProofs'', g2, h2)"
    "list_all ?P (map (csv_row ''DepositContractWithProofs'') rows2)"
    by (elim exE conjE)
  let ?all = "[(''DepositContract'', rows1), (''DepositContractWithProofs'', rows2)]"
  let ?rows = "map (csv_row ''DepositContract'') rows1
      @ map (csv_row ''DepositContractWithProofs'') rows2"
  have st: "store_results (zip CONTRACT_NAMES outs) [] = Inr ?all"
    by (simp add: o p CONTRACT_NAMES_def r1(1) r2(1))
  have sv: "save_csv ?all = csv_header # ?rows" by (simp add: save_csv_def)
  have n: "length ?rows = sum_list (map (\<lambda>out. length (fst out)) outs)"
    by (simp add: o p r1(2) r2(2))
  have f: "map csv_fields ?rows = concat (map expected_fields (zip CONTRACT_NAMES outs))"
    using r1(3) r2(3) by (simp add: o p CONTRACT_NAMES_def)
  have l: "list_all ?P ?rows" using r1(4) r2(4) by simp
  show ?thesis
    apply (rule exI [of _ ?all])
    apply (rule exI [of _ ?rows])
    apply (intro conjI)
        apply (rule st)
       apply (rule sv)
      apply (rule n)
     apply (rule f)
    apply (rule l)
    done
qed

text \<open>
  Two contracts, each with the five results of the run on the stub chain: ten lines
  after the header, with these fields.
\<close>

theorem csv_rows_witness:
  "\<exists>all_results rows.
     store_results (zip CONTRACT_NAMES
        [([21000, 21000, 21000, 21000, 21000], [''00'', ''01'', ''02'', ''03'', ''04'']),
         ([21000, 21000, 21000, 21000, 21000], [''00'', ''01'', ''02'', ''03'', ''04''])]) []
       = Inr all_results \<and>
     save_csv all_results = csv_header # rows \<and> length rows = 10 \<and>
     map csv_fields rows =
       [[''DepositContract'', ''0'', ''21000'', ''00''],
        [''DepositContract'', ''1'', ''21000'', ''01''],
        [''DepositContract'', ''2'', ''21000'', ''02''],
        [''DepositContract'', ''3'', ''21000'', ''03''],
        [''DepositContract'', ''4'', ''21000'', ''04''],
        [''DepositContractWithProofs'', ''0'', ''21000'', ''00''],
        [''DepositContractWithProofs'', ''1'', ''21000'', ''01''],
        [''DepositContractWithProofs'', ''2'', ''21000'', ''02''],
        [''DepositContractWithProofs'', ''3'', ''21000'', ''03''],
        [''DepositContractWithProofs'', ''4'', ''21000'', ''04'']]"
proof -
  let ?out = "([21000, 21000, 21000, 21000, 21000] :: int list,
     [''00'', ''01'', ''02'', ''03'', ''04''])"
  let ?run = "call_deposit_many_multiacct stub_chain default_config deposit_contract
     ''deposit'' leaf_args two_accounts 5 fresh"
  have "?run = (Inr ?out, snd ?run)" using stub_run5(1) by (simp add: prod_eq_iff)
  then have b: "benchmark_output stub_chain default_config ?out"
    unfolding benchmark_output_def by blast
  have len: "length [?out, ?out] = length CONTRACT_NAMES" by (simp add: CONTRACT_NAMES_def)
  have outs: "list_all (benchmark_output stub_chain default_config) [?out, ?out]"
    using b by simp
  have e: "concat (map expected_fields (zip CONTRACT_NAMES [?out, ?out])) =
       [[''DepositContract'', ''0'', ''21000'', ''00''],
        [''DepositContract'', ''1'', ''21000'', ''01''],
        [''DepositContract'', ''2'', ''21000'', ''02''],
        [''DepositContract'', ''3'', ''21000'', ''03''],
        [''DepositContract'', ''4'', ''21000'', ''04''],
        [''DepositContractWithProofs'', ''0'', ''21000'', ''00''],
        [''DepositContractWithProofs'', ''1'', ''21000'', ''01''],
        [''DepositContractWithProofs'', ''2'', ''21000'', ''02''],
        [''DepositContractWithProofs'', ''3'', ''21000'', ''03''],
        [''DepositContractWithProofs'', ''4'', ''21000'', ''04'']]"
    by (simp add: expected_fields_def CONTRACT_NAMES_def str_int_def digit_char_def upt_rec)
  have n: "sum_list (map (\<lambda>out. length (fst out)) [?out, ?out]) = 10" by simp
  from csv_rows [OF len outs] obtain all_results rows where a:
    "store_results (zip CONTRACT_NAMES [?out, ?out]) [] = Inr all_results"
    "save_csv all_results = csv_header # rows"
    "length rows = sum_list (map (\<lambda>out. length (fst out)) [?out, ?out])"
    "map csv_fields rows = concat (map expected_fields (zip CONTRACT_NAMES [?out, ?out]))"
    by (elim exE conjE)
  from a(3) have l: "length rows = 10" unfolding n .
  note f = a(4) [unfolded e]
  show ?thesis
    apply (rule exI [of _ all_results])
    apply (rule exI [of _ rows])
    apply (intro conjI)
       apply (rule a(1))
      apply (rule a(2))
     apply (rule l)
    apply (rule f)
    done
qed

end
